theory Spec2Isabelle
  imports Main "HOL-Library.Product_Lexorder"
begin

section \<open>Data model of \<open>src/core/memory_db.py\<close>\<close>

text \<open>
  A memory's content is a Python \<open>Dict[str, Any]\<close> holding a JSON document. The
  \<open>content\<close> columns hold \<open>json.dumps(content, ensure_ascii=False)\<close> and every read
  applies \<open>json.loads\<close>. The \<open>json\<close> module is not part of the repository; on
  documents of the type below (string keys, no floats) \<open>loads\<close> inverts \<open>dumps\<close> and
  keeps the insertion order of the keys, so a column carries the document itself.
\<close>

datatype json =
    JNull
  | JBool bool
  | JInt int
  | JStr string
  | JArr "json list"
  | JObj "(string \<times> json) list"

type_synonym content = "(string \<times> json) list"

text \<open>The exceptions the modelled code can raise.\<close>

datatype error =
    ValueError
  | UnboundLocalError
  | AttributeError
  | OperationalError
  | IntegrityError
  | SameFileError
  | FileNotFoundError
  | OSError
  | TimeoutError
  | OverflowError
  | NameError

text \<open>
  The three tables of \<open>MemoryDB.create_tables\<close>. Timestamps (\<open>CURRENT_TIMESTAMP\<close>) are
  seconds, supplied by the caller of each operation as \<open>now\<close>. A table is the list of
  its rows in insertion order; \<open>*_seq\<close> is the \<open>AUTOINCREMENT\<close> counter of the table
  (the largest id ever handed out, never reused after a delete).
\<close>

record memory_row =
  m_id :: int
  memory_type :: string
  session_id :: "string option"
  date :: "string option"
  m_content :: content
  importance :: int
  tags :: "string option"
  m_created_at :: nat
  updated_at :: nat
  is_deleted :: int

record version_row =
  v_id :: int
  memory_id :: int
  version :: int
  v_content :: content
  changed_by :: string
  change_reason :: "string option"
  v_created_at :: nat

record backup_row =
  b_id :: int
  backup_type :: string
  file_path :: string
  size_bytes :: "nat option"
  checksum :: "string option"
  status :: string
  description :: "string option"
  b_created_at :: nat

text \<open>
  \<open>description_col\<close> records whether the \<open>backups\<close> table of this database file has
  a \<open>description\<close> column. \<open>create_tables\<close> makes the table without it
  (\<open>CREATE TABLE IF NOT EXISTS\<close> leaves an existing table as it is).
\<close>

record db =
  memories :: "memory_row list"
  memories_seq :: int
  versions :: "version_row list"
  versions_seq :: int
  backups :: "backup_row list"
  backups_seq :: int
  description_col :: bool

definition create_tables :: db where
  "create_tables =
     \<lparr>memories = [], memories_seq = 0, versions = [], versions_seq = 0,
      backups = [], backups_seq = 0, description_col = False\<rparr>"

text \<open>The dictionary returned by \<open>get_memory\<close>.\<close>

record memory =
  g_id :: int
  g_memory_type :: string
  g_session_id :: "string option"
  g_date :: "string option"
  g_content :: content
  g_importance :: int
  g_tags :: "string list"
  g_created_at :: nat
  g_updated_at :: nat

section \<open>String helpers\<close>

text \<open>\<open>sep.join(xs)\<close> and \<open>s.split(c)\<close> of Python.\<close>

fun join :: "string \<Rightarrow> string list \<Rightarrow> string" where
  "join sep [] = []"
| "join sep [x] = x"
| "join sep (x # y # ys) = x @ sep @ join sep (y # ys)"

fun split :: "char \<Rightarrow> string \<Rightarrow> string list" where
  "split c [] = [[]]"
| "split c (x # xs) =
     (if x = c then [] # split c xs
      else (case split c xs of [] \<Rightarrow> [[x]] | y # ys \<Rightarrow> (x # y) # ys))"

text \<open>Decimal printing of an integer, as an f-string does.\<close>

function str_nat :: "nat \<Rightarrow> string" where
  "str_nat n =
     (if n < 10 then [char_of (48 + n)]
      else str_nat (n div 10) @ [char_of (48 + n mod 10)])"
  by pat_completeness auto
termination
  by (relation "measure (\<lambda>n. n)") auto

definition str_int :: "int \<Rightarrow> string" where
  "str_int i = (if i < 0 then CHR ''-'' # str_nat (nat (- i)) else str_nat (nat i))"

section \<open>Record operations of \<open>MemoryDB\<close>\<close>

text \<open>
  Every method opens the connection when there is none and then works on the tables;
  the record operations are functions from the database to a result and the database
  afterwards. A raised exception is \<open>Inl\<close>; the \<open>transaction\<close> context manager rolls
  back on an exception and commits otherwise.
\<close>

definition live_rows :: "int \<Rightarrow> db \<Rightarrow> memory_row list" where
  "live_rows mid d = filter (\<lambda>r. m_id r = mid \<and> is_deleted r = 0) (memories d)"

definition save_memory ::
  "nat \<Rightarrow> string \<Rightarrow> content \<Rightarrow> string option \<Rightarrow> string option \<Rightarrow> int \<Rightarrow> string list
     \<Rightarrow> db \<Rightarrow> (error + int) \<times> db" where
  "save_memory now mtype doc sid dt imp tgs d =
     (if doc = [] then (Inl ValueError, d)
      else if mtype \<notin> set [''session'', ''daily'', ''longterm''] then (Inl ValueError, d)
      else if imp < 0 \<or> imp > 10 then (Inl ValueError, d)
      else
        let tags_str = (if tgs \<noteq> [] then Some (join '','' tgs) else None);
            mid = memories_seq d + 1;
            row = \<lparr>m_id = mid, memory_type = mtype, session_id = sid, date = dt,
                   m_content = doc, importance = imp, tags = tags_str,
                   m_created_at = now, updated_at = now, is_deleted = 0\<rparr>;
            vrow = \<lparr>v_id = versions_seq d + 1, memory_id = mid, version = 1,
                    v_content = doc, changed_by = ''system'',
                    change_reason = Some ''Initial creation'', v_created_at = now\<rparr>
        in (Inr mid,
            d\<lparr>memories := memories d @ [row], memories_seq := mid,
              versions := versions d @ [vrow], versions_seq := versions_seq d + 1\<rparr>))"

definition get_memory :: "int \<Rightarrow> db \<Rightarrow> memory option" where
  "get_memory mid d =
     (case live_rows mid d of
        [] \<Rightarrow> None
      | row # _ \<Rightarrow>
          Some \<lparr>g_id = m_id row, g_memory_type = memory_type row,
                g_session_id = session_id row, g_date = date row,
                g_content = m_content row, g_importance = importance row,
                g_tags = (case tags row of None \<Rightarrow> [] | Some s \<Rightarrow>
                            if s = [] then [] else split CHR '','' s),
                g_created_at = m_created_at row, g_updated_at = updated_at row\<rparr>)"

text \<open>\<open>SELECT MAX(version) FROM versions WHERE memory_id = ?\<close>: \<open>NULL\<close> on no row.\<close>

definition max_version :: "int \<Rightarrow> db \<Rightarrow> int option" where
  "max_version mid d =
     (case map version (filter (\<lambda>v. memory_id v = mid) (versions d)) of
        [] \<Rightarrow> None
      | x # xs \<Rightarrow> Some (fold max xs x))"

definition update_memory ::
  "nat \<Rightarrow> int \<Rightarrow> content \<Rightarrow> string \<Rightarrow> string option \<Rightarrow> db \<Rightarrow> (error + bool) \<times> db" where
  "update_memory now mid doc by reason d =
     (if doc = [] then (Inl ValueError, d)
      else
        let new_version = (case max_version mid d of None \<Rightarrow> 0 | Some m \<Rightarrow> m) + 1;
            rowcount = length (live_rows mid d)
        in if rowcount = 0 then (Inr False, d)
           else
             (Inr True,
              d\<lparr>memories :=
                  map (\<lambda>r. if m_id r = mid \<and> is_deleted r = 0
                           then r\<lparr>m_content := doc, updated_at := now\<rparr> else r)
                    (memories d),
                versions := versions d @
                  [\<lparr>v_id = versions_seq d + 1, memory_id = mid, version = new_version,
                    v_content = doc, changed_by = by, change_reason = reason,
                    v_created_at = now\<rparr>],
                versions_seq := versions_seq d + 1\<rparr>))"

text \<open>
  \<open>get_versions\<close>: the rows of one memory, \<open>ORDER BY version ASC\<close>. The dictionaries
  it returns have the seven columns of the row.
\<close>

definition get_versions :: "int \<Rightarrow> db \<Rightarrow> version_row list" where
  "get_versions mid d = sort_key version (filter (\<lambda>v. memory_id v = mid) (versions d))"

definition restore_version :: "nat \<Rightarrow> int \<Rightarrow> db \<Rightarrow> (error + bool) \<times> db" where
  "restore_version now vid d =
     (case filter (\<lambda>v. v_id v = vid) (versions d) of
        [] \<Rightarrow> (Inr False, d)
      | row # _ \<Rightarrow>
          update_memory now (memory_id row) (v_content row) ''system''
            (Some (''Restored from version '' @ str_int vid)) d)"

text \<open>
  \<open>delete_memory\<close>. With \<open>permanent\<close> the version rows and the memory row are deleted
  in one transaction and \<open>cursor.rowcount\<close> is that of the last statement. Without it
  the method executes its \<open>UPDATE ... SET is_deleted = 1\<close> on the local variable
  \<open>cursor\<close>, which is bound only by the \<open>with\<close> statement of the other branch: Python
  raises \<open>UnboundLocalError\<close> before any statement reaches the database.
\<close>

definition delete_memory :: "int \<Rightarrow> bool \<Rightarrow> db \<Rightarrow> (error + bool) \<times> db" where
  "delete_memory mid permanent d =
     (if permanent then
        (Inr (length (filter (\<lambda>r. m_id r = mid) (memories d)) > 0),
         d\<lparr>versions := filter (\<lambda>v. memory_id v \<noteq> mid) (versions d),
           memories := filter (\<lambda>r. m_id r \<noteq> mid) (memories d)\<rparr>)
      else (Inl UnboundLocalError, d))"

section \<open>\<open>VersioningService\<close> (\<open>src/services/versioning.py\<close>)\<close>

definition get_version_history :: "int \<Rightarrow> db \<Rightarrow> version_row list" where
  "get_version_history mid d = get_versions mid d"

definition rollback_to_version :: "nat \<Rightarrow> int \<Rightarrow> int \<Rightarrow> db \<Rightarrow> (error + bool) \<times> db" where
  "rollback_to_version now mid ver d =
     (case filter (\<lambda>v. version v = ver) (get_versions mid d) of
        [] \<Rightarrow> (Inr False, d)
      | target # _ \<Rightarrow> restore_version now (v_id target) d)"

text \<open>
  The constraints SQLite keeps on the tables (primary keys, the \<open>AUTOINCREMENT\<close>
  counters, the foreign key of \<open>versions.memory_id\<close> under \<open>PRAGMA foreign_keys = ON\<close>)
  together with the fact that no stored document is empty, which \<open>save_memory\<close> and
  \<open>update_memory\<close> check before they write.
\<close>

definition consistent :: "db \<Rightarrow> bool" where
  "consistent d \<longleftrightarrow>
     (\<forall>r \<in> set (memories d). m_id r \<le> memories_seq d) \<and>
     distinct (map m_id (memories d)) \<and>
     (\<forall>v \<in> set (versions d). v_id v \<le> versions_seq d) \<and>
     distinct (map v_id (versions d)) \<and>
     (\<forall>v \<in> set (versions d). memory_id v \<in> m_id ` set (memories d)) \<and>
     (\<forall>v \<in> set (versions d). v_content v \<noteq> [])"

text \<open>
  No memory carries the soft-delete flag. The one statement of the code that sets
  \<open>is_deleted\<close> is in the branch of \<open>delete_memory\<close> that raises before it runs, so
  this holds of every database the operations make from the one of \<open>create_tables\<close>.
\<close>

definition all_live :: "db \<Rightarrow> bool" where
  "all_live d \<longleftrightarrow> (\<forall>r \<in> set (memories d). is_deleted r = 0)"

text \<open>A caller's run of \<open>update_memory\<close> calls on one memory, each returning \<open>True\<close>.\<close>

record update_call =
  u_now :: nat
  u_content :: content
  u_changed_by :: string
  u_change_reason :: "string option"

fun updates :: "int \<Rightarrow> update_call list \<Rightarrow> db \<Rightarrow> db option" where
  "updates mid [] d = Some d"
| "updates mid (u # us) d =
     (case update_memory (u_now u) mid (u_content u) (u_changed_by u) (u_change_reason u) d of
        (Inr True, d') \<Rightarrow> updates mid us d'
      | _ \<Rightarrow> None)"

section \<open>\<open>PersistenceService\<close> (\<open>src/services/persistence.py\<close>)\<close>

text \<open>
  The keyword arguments a caller passes on to \<open>save_memory\<close>, with the defaults of
  \<open>save_memory\<close> filled in, and a queued write.
\<close>

record kwargs =
  kw_session_id :: "string option"
  kw_date :: "string option"
  kw_importance :: int
  kw_tags :: "string list"

record item =
  i_memory_type :: string
  i_content :: content
  i_kwargs :: kwargs
  i_timestamp :: nat

text \<open>
  The service object. \<open>queue\<close> is the unbounded \<open>queue.Queue\<close> in FIFO order, oldest
  first; \<open>max_queue_size\<close> is the configured capacity that \<open>queue_save\<close> compares
  \<open>qsize()\<close> with.
\<close>

record persistence_service =
  max_queue_size :: int
  auto_flush :: bool
  queue :: "item list"
  running :: bool
  last_flush :: "nat option"
  flush_count :: nat
  error_count :: nat
  total_saves :: nat
  total_queues :: nat

text \<open>
  The \<open>for item in items\<close> loop of \<open>force_flush\<close>: it stops at the first exception
  \<open>save_memory\<close> raises and reports it, together with the counter \<open>flushed\<close>.
\<close>

fun save_items :: "nat \<Rightarrow> item list \<Rightarrow> nat \<Rightarrow> db \<Rightarrow> error option \<times> nat \<times> db" where
  "save_items now [] flushed d = (None, flushed, d)"
| "save_items now (it # its) flushed d =
     (case save_memory now (i_memory_type it) (i_content it) (kw_session_id (i_kwargs it))
             (kw_date (i_kwargs it)) (kw_importance (i_kwargs it)) (kw_tags (i_kwargs it)) d of
        (Inl e, d') \<Rightarrow> (Some e, flushed, d')
      | (Inr _, d') \<Rightarrow> save_items now its (flushed + 1) d')"

definition force_flush ::
  "nat \<Rightarrow> persistence_service \<Rightarrow> db \<Rightarrow> nat \<times> persistence_service \<times> db" where
  "force_flush now s d =
     (let items = queue s; s0 = s\<lparr>queue := []\<rparr>
      in if items = [] then (0, s0, d)
         else
           (case save_items now items 0 d of
              (None, flushed, d') \<Rightarrow>
                (flushed,
                 s0\<lparr>last_flush := Some now, flush_count := flush_count s0 + flushed\<rparr>, d')
            | (Some e, flushed, d') \<Rightarrow>
                (flushed, s0\<lparr>error_count := error_count s0 + 1, queue := items\<rparr>, d')))"

definition queue_save ::
  "nat \<Rightarrow> string \<Rightarrow> content \<Rightarrow> kwargs \<Rightarrow> persistence_service \<Rightarrow> db
     \<Rightarrow> bool \<times> persistence_service \<times> db" where
  "queue_save now mtype doc kw s d =
     (let (s1, d1) =
            (if max_queue_size s \<le> int (length (queue s))
             then snd (force_flush now s d) else (s, d))
      in (True,
          s1\<lparr>queue := queue s1 @
                 [\<lparr>i_memory_type = mtype, i_content = doc, i_kwargs = kw,
                   i_timestamp = now\<rparr>],
             total_queues := total_queues s1 + 1\<rparr>,
          d1))"

text \<open>A caller's run of \<open>queue_save\<close> calls.\<close>

record save_request =
  q_now :: nat
  q_memory_type :: string
  q_content :: content
  q_kwargs :: kwargs

fun queue_saves ::
  "save_request list \<Rightarrow> persistence_service \<Rightarrow> db \<Rightarrow> persistence_service \<times> db" where
  "queue_saves [] s d = (s, d)"
| "queue_saves (q # qs) s d =
     (case queue_save (q_now q) (q_memory_type q) (q_content q) (q_kwargs q) s d of
        (_, s', d') \<Rightarrow> queue_saves qs s' d')"

text \<open>
  The writes \<open>save_memory\<close> accepts, that is, those on which the store raises no error,
  and what a memory row shows of a write.
\<close>

definition accepted :: "string \<Rightarrow> content \<Rightarrow> kwargs \<Rightarrow> bool" where
  "accepted mtype doc kw \<longleftrightarrow>
     doc \<noteq> [] \<and> mtype \<in> set [''session'', ''daily'', ''longterm''] \<and>
     0 \<le> kw_importance kw \<and> kw_importance kw \<le> 10"

definition persisted :: "db \<Rightarrow> (string \<times> content \<times> string option \<times> string option \<times> int) list" where
  "persisted d =
     map (\<lambda>r. (memory_type r, m_content r, session_id r, date r, importance r)) (memories d)"

definition written :: "string \<Rightarrow> content \<Rightarrow> kwargs
     \<Rightarrow> string \<times> content \<times> string option \<times> string option \<times> int" where
  "written mtype doc kw = (mtype, doc, kw_session_id kw, kw_date kw, kw_importance kw)"

definition item_written :: "item \<Rightarrow> string \<times> content \<times> string option \<times> string option \<times> int" where
  "item_written it = written (i_memory_type it) (i_content it) (i_kwargs it)"

definition item_accepted :: "item \<Rightarrow> bool" where
  "item_accepted it = accepted (i_memory_type it) (i_content it) (i_kwargs it)"

section \<open>Files, the connection and the platform\<close>

text \<open>
  The backup code works on the database file and on the files of the backup
  directory. \<open>live\<close> is the database behind the connection, that is, the content of the
  file at \<open>db_path\<close>, which stays in place; \<open>files\<close> maps every other path to the
  database image the file holds, or to \<open>None\<close> when there is no such file. \<open>conn\<close>
  tells whether \<open>self.conn\<close> is set. \<open>undeletable\<close> are the paths on which
  \<open>os.unlink\<close> raises \<open>OSError\<close>.
\<close>

record world =
  db_path :: string
  conn :: bool
  live :: db
  files :: "string \<Rightarrow> db option"
  undeletable :: "string set"

text \<open>
  What the code takes from the Python library: the MD5 digest and the size of a file,
  the longest timeout a lock accepts, in microseconds (\<open>PY_TIMEOUT_MAX\<close>, of which
  \<open>threading.TIMEOUT_MAX\<close> is the whole number of seconds), and \<open>str(e)\<close> of an
  exception.
\<close>

record platform =
  md5 :: "db \<Rightarrow> string"
  getsize :: "db \<Rightarrow> nat"
  timeout_max :: int
  describe :: "error \<Rightarrow> string"

definition connect :: "world \<Rightarrow> world" where
  "connect w = w\<lparr>conn := True\<rparr>"

definition close :: "world \<Rightarrow> world" where
  "close w = w\<lparr>conn := False\<rparr>"

definition read_file :: "world \<Rightarrow> string \<Rightarrow> db option" where
  "read_file w p = (if p = db_path w then Some (live w) else files w p)"

definition path_exists :: "world \<Rightarrow> string \<Rightarrow> bool" where
  "path_exists w p \<longleftrightarrow> read_file w p \<noteq> None"

definition write_file :: "string \<Rightarrow> db \<Rightarrow> world \<Rightarrow> world" where
  "write_file p c w = (if p = db_path w then w\<lparr>live := c\<rparr> else w\<lparr>files := (files w)(p := Some c)\<rparr>)"

text \<open>\<open>shutil.copy2\<close>: it refuses to copy a file onto itself.\<close>

definition copy2 :: "string \<Rightarrow> string \<Rightarrow> world \<Rightarrow> error + world" where
  "copy2 src dst w =
     (if src = dst then Inl SameFileError
      else (case read_file w src of
              None \<Rightarrow> Inl FileNotFoundError
            | Some c \<Rightarrow> Inr (write_file dst c w)))"

definition unlink :: "string \<Rightarrow> world \<Rightarrow> error + world" where
  "unlink p w =
     (if p \<in> undeletable w then Inl OSError
      else Inr (w\<lparr>files := (files w)(p := None)\<rparr>))"

text \<open>\<open>os.path.join\<close> of a directory and a relative file name.\<close>

definition path_join :: "string \<Rightarrow> string \<Rightarrow> string" where
  "path_join dir name =
     (if dir = [] then name
      else if last dir = CHR ''/'' then dir @ name
      else dir @ ''/'' @ name)"

section \<open>Backups in \<open>MemoryDB\<close>\<close>

text \<open>
  \<open>MemoryDB.create_backup\<close>. \<open>ts\<close> is \<open>datetime.now()\<close> formatted for the file name and
  \<open>now\<close> the \<open>CURRENT_TIMESTAMP\<close> of the inserted row. The \<open>CHECK\<close> constraint on
  \<open>backup_type\<close> makes the \<open>INSERT\<close> raise \<open>IntegrityError\<close>.
\<close>

definition MemoryDB_create_backup ::
  "platform \<Rightarrow> string \<Rightarrow> nat \<Rightarrow> string \<Rightarrow> world \<Rightarrow> (error + int) \<times> world" where
  "MemoryDB_create_backup pf ts now btype w =
     (let w0 = connect w;
          backup_path = path_join ''data/backups'' (''backup_'' @ ts @ ''.db'')
      in case copy2 (db_path w0) backup_path w0 of
           Inl e \<Rightarrow> (Inl e, w0)
         | Inr w1 \<Rightarrow>
             (case read_file w1 backup_path of
                None \<Rightarrow> (Inl FileNotFoundError, w1)
              | Some f \<Rightarrow>
                  if btype \<notin> set [''scheduled'', ''manual'', ''auto'']
                  then (Inl IntegrityError, w1)
                  else
                    let bid = backups_seq (live w1) + 1;
                        row = \<lparr>b_id = bid, backup_type = btype, file_path = backup_path,
                               size_bytes = Some (getsize pf f), checksum = Some (md5 pf f),
                               status = ''completed'', description = None,
                               b_created_at = now\<rparr>
                    in (Inr bid,
                        w1\<lparr>live := (live w1)\<lparr>backups := backups (live w1) @ [row],
                                               backups_seq := bid\<rparr>\<rparr>)))"

text \<open>
  \<open>MemoryDB.restore_backup\<close>: every failed check returns \<open>False\<close>; after the checks
  the connection is closed, the backup is copied over the database file and the
  connection is opened again.
\<close>

definition MemoryDB_restore_backup :: "platform \<Rightarrow> int \<Rightarrow> world \<Rightarrow> (error + bool) \<times> world" where
  "MemoryDB_restore_backup pf bid w =
     (let w0 = connect w
      in case filter (\<lambda>b. b_id b = bid) (backups (live w0)) of
           [] \<Rightarrow> (Inr False, w0)
         | row # _ \<Rightarrow>
             (case read_file w0 (file_path row) of
                None \<Rightarrow> (Inr False, w0)
              | Some f \<Rightarrow>
                  if Some (md5 pf f) \<noteq> checksum row then (Inr False, w0)
                  else
                    let w1 = close w0
                    in (case copy2 (file_path row) (db_path w1) w1 of
                          Inl e \<Rightarrow> (Inl e, w1)
                        | Inr w2 \<Rightarrow> (Inr True, connect w2))))"

section \<open>\<open>BackupService\<close> (\<open>src/services/backup.py\<close>)\<close>

text \<open>
  \<open>BackupService.create_backup\<close>, with \<open>bdir\<close> the backup directory of the service.
  Its \<open>INSERT\<close> names the \<open>description\<close> column: on a table without that column it
  raises \<open>OperationalError\<close>. The \<open>except\<close> branch tries to record a \<open>failed\<close> row
  (swallowing any error of that second \<open>INSERT\<close>) and raises the exception again.
\<close>

definition insert_backup :: "backup_row \<Rightarrow> world \<Rightarrow> error + int \<times> world" where
  "insert_backup row w =
     (if \<not> conn w then Inl AttributeError
      else if \<not> description_col (live w) then Inl OperationalError
      else if backup_type row \<notin> set [''scheduled'', ''manual'', ''auto''] then Inl IntegrityError
      else
        let bid = backups_seq (live w) + 1
        in Inr (bid,
                w\<lparr>live := (live w)\<lparr>backups := backups (live w) @ [row\<lparr>b_id := bid\<rparr>],
                                     backups_seq := bid\<rparr>\<rparr>))"

definition record_failure ::
  "platform \<Rightarrow> nat \<Rightarrow> string \<Rightarrow> string \<Rightarrow> error \<Rightarrow> world \<Rightarrow> world" where
  "record_failure pf now btype backup_path e w =
     (if conn w then
        (case insert_backup
                \<lparr>b_id = 0, backup_type = btype, file_path = backup_path, size_bytes = None,
                 checksum = None, status = ''failed'', description = Some (describe pf e),
                 b_created_at = now\<rparr> w of
           Inl _ \<Rightarrow> w
         | Inr (_, w') \<Rightarrow> w')
      else w)"

definition create_backup ::
  "platform \<Rightarrow> string \<Rightarrow> nat \<Rightarrow> string \<Rightarrow> string \<Rightarrow> string option \<Rightarrow> world
     \<Rightarrow> (error + int) \<times> world" where
  "create_backup pf ts now bdir btype descr w =
     (let backup_path = path_join bdir ((''backup_'' @ ts) @ ''.db'')
      in case copy2 (db_path w) backup_path w of
           Inl e \<Rightarrow> (Inl e, record_failure pf now btype backup_path e w)
         | Inr w1 \<Rightarrow>
             (case read_file w1 backup_path of
                None \<Rightarrow>
                  (Inl FileNotFoundError,
                   record_failure pf now btype backup_path FileNotFoundError w1)
              | Some f \<Rightarrow>
                  (case insert_backup
                          \<lparr>b_id = 0, backup_type = btype, file_path = backup_path,
                           size_bytes = Some (getsize pf f), checksum = Some (md5 pf f),
                           status = ''completed'', description = descr,
                           b_created_at = now\<rparr> w1 of
                     Inl e \<Rightarrow> (Inl e, record_failure pf now btype backup_path e w1)
                   | Inr (bid, w2) \<Rightarrow> (Inr bid, w2))))"

text \<open>
  Locks. A lock object is an index into the list of all lock objects of the process;
  the entry tells whether the lock is held. \<open>threading.Lock()\<close> makes a new, free
  lock.

  \<open>acquire(timeout=t)\<close> turns the float \<open>t\<close> into a whole number of nanoseconds,
  rounding away from zero; a timeout is given here as that number (30 seconds are
  \<open>30 * 10^9\<close>), and the float arithmetic of the conversion is left out. The
  argument check of \<open>acquire\<close> then raises \<open>OverflowError\<close> when the number does not
  fit 64 bits, \<open>ValueError\<close> when it is negative and not the -1 second that stands
  for an unbounded wait, and \<open>OverflowError\<close> when, rounded up to microseconds, it is
  above the platform's maximum. After the check, a free lock is taken at once; on a
  held lock the call gives up when the time is over, or never returns (\<open>None\<close>) when
  the wait is unbounded, no other thread being there to release the lock.
\<close>

definition new_lock :: "bool list \<Rightarrow> nat \<times> bool list" where
  "new_lock ls = (length ls, ls @ [False])"

definition acquire_check :: "int \<Rightarrow> int \<Rightarrow> error option" where
  "acquire_check tmax t =
     (if t < - (2 ^ 63) \<or> 2 ^ 63 \<le> t then Some OverflowError
      else if t < 0 \<and> t \<noteq> - (10 ^ 9) then Some ValueError
      else if t \<noteq> - (10 ^ 9) \<and> tmax < (t + 999) div 1000 then Some OverflowError
      else None)"

definition lock_acquire :: "int \<Rightarrow> int \<Rightarrow> nat \<Rightarrow> bool list \<Rightarrow> (error + bool \<times> bool list) option" where
  "lock_acquire tmax t l ls =
     (case acquire_check tmax t of
        Some e \<Rightarrow> Some (Inl e)
      | None \<Rightarrow>
          if l < length ls \<and> \<not> ls ! l then Some (Inr (True, ls[l := True]))
          else if t = - (10 ^ 9) then None
          else Some (Inr (False, ls)))"

definition lock_release :: "nat \<Rightarrow> bool list \<Rightarrow> bool list" where
  "lock_release l ls = ls[l := False]"

definition create_backup_with_lock ::
  "platform \<Rightarrow> string \<Rightarrow> nat \<Rightarrow> string \<Rightarrow> string \<Rightarrow> string option \<Rightarrow> int \<Rightarrow> world
     \<Rightarrow> bool list \<Rightarrow> ((error + int) \<times> world \<times> bool list) option" where
  "create_backup_with_lock pf ts now bdir btype descr timeout w ls =
     (case new_lock ls of
        (l, ls1) \<Rightarrow>
          (case lock_acquire (timeout_max pf) timeout l ls1 of
             None \<Rightarrow> None
           | Some (Inl e) \<Rightarrow> Some (Inl e, w, ls1)
           | Some (Inr (True, ls2)) \<Rightarrow>
               (case create_backup pf ts now bdir btype descr w of
                  (r, w') \<Rightarrow> Some (r, w', lock_release l ls2))
           | Some (Inr (False, ls2)) \<Rightarrow> Some (Inl TimeoutError, w, ls2)))"

text \<open>
  \<open>BackupService.restore_backup\<close>. The statement
  \<open>backup_path, expected_checksum, status = row[0]\<close> unpacks the first column, the
  path string, into three names: Python raises \<open>ValueError\<close> unless the path has
  exactly three characters, and then each name is one character of the path. On a
  checksum mismatch the log message names the undefined variables \<open>actual\<close> and
  \<open>expected\<close>, which raises \<open>NameError\<close>.
\<close>

definition restore_backup :: "platform \<Rightarrow> int \<Rightarrow> world \<Rightarrow> (error + bool) \<times> world" where
  "restore_backup pf bid w =
     (if \<not> conn w then (Inl AttributeError, w)
      else case filter (\<lambda>b. b_id b = bid) (backups (live w)) of
             [] \<Rightarrow> (Inr False, w)
           | row # _ \<Rightarrow>
               (case file_path row of
                  [c1, c2, c3] \<Rightarrow>
                    let backup_path = [c1]; expected_checksum = [c2]; stat = [c3]
                    in if stat \<noteq> ''completed'' then (Inr False, w)
                       else
                         (case read_file w backup_path of
                            None \<Rightarrow> (Inr False, w)
                          | Some f \<Rightarrow>
                              if md5 pf f \<noteq> expected_checksum then (Inl NameError, w)
                              else
                                let w1 = close w
                                in (case copy2 backup_path (db_path w1) w1 of
                                      Inl e \<Rightarrow> (Inr False, connect w1)
                                    | Inr w2 \<Rightarrow> (Inr True, connect w2)))
                | _ \<Rightarrow> (Inl ValueError, w)))"

text \<open>
  \<open>cleanup_old_backups\<close>. The query takes the rows of the scope (all rows, or those of
  one type) whose id is not among the first \<open>keep_count\<close> ids of the scope in
  \<open>ORDER BY created_at DESC\<close>, and returns them in \<open>ORDER BY created_at ASC\<close>. No
  condition on \<open>status\<close> occurs in it. A negative \<open>LIMIT\<close> is no limit in SQLite.
  SQLite sorts the rows of a table scan, which come in the order of their ids, with
  a stable sort: rows with equal \<open>created_at\<close> come out with the lower id first, in
  the descending order as in the ascending one.
\<close>

definition in_scope :: "string option \<Rightarrow> backup_row \<Rightarrow> bool" where
  "in_scope btype b =
     (case btype of None \<Rightarrow> True | Some t \<Rightarrow> if t = [] then True else backup_type b = t)"

definition limit :: "int \<Rightarrow> 'a list \<Rightarrow> 'a list" where
  "limit n xs = (if n < 0 then xs else take (nat n) xs)"

definition order_by_created_at_desc :: "backup_row list \<Rightarrow> backup_row list" where
  "order_by_created_at_desc rows = rev (sort_key (\<lambda>b. (b_created_at b, - b_id b)) rows)"

definition order_by_created_at_asc :: "backup_row list \<Rightarrow> backup_row list" where
  "order_by_created_at_asc rows = sort_key (\<lambda>b. (b_created_at b, b_id b)) rows"

definition kept_ids :: "int \<Rightarrow> string option \<Rightarrow> db \<Rightarrow> int list" where
  "kept_ids keep_count btype d =
     map b_id (limit keep_count (order_by_created_at_desc (filter (in_scope btype) (backups d))))"

definition to_delete :: "int \<Rightarrow> string option \<Rightarrow> db \<Rightarrow> backup_row list" where
  "to_delete keep_count btype d =
     order_by_created_at_asc
       (filter (\<lambda>b. in_scope btype b \<and> b_id b \<notin> set (kept_ids keep_count btype d)) (backups d))"

text \<open>
  The loop over the rows to delete: an exception of \<open>os.unlink\<close> is logged, the row
  stays, and the loop goes on with the next row.
\<close>

fun delete_backups :: "backup_row list \<Rightarrow> nat \<Rightarrow> world \<Rightarrow> nat \<times> world" where
  "delete_backups [] deleted w = (deleted, w)"
| "delete_backups (b # bs) deleted w =
     (case (if path_exists w (file_path b) then unlink (file_path b) w else Inr w) of
        Inl e \<Rightarrow> delete_backups bs deleted w
      | Inr w1 \<Rightarrow>
          delete_backups bs (deleted + 1)
            (w1\<lparr>live := (live w1)\<lparr>backups :=
                          filter (\<lambda>r. b_id r \<noteq> b_id b) (backups (live w1))\<rparr>\<rparr>))"

definition cleanup_old_backups ::
  "int \<Rightarrow> string option \<Rightarrow> world \<Rightarrow> (error + nat) \<times> world" where
  "cleanup_old_backups keep_count btype w =
     (if \<not> conn w then (Inl AttributeError, w)
      else case delete_backups (to_delete keep_count btype (live w)) 0 w of
             (deleted, w') \<Rightarrow> (Inr deleted, w'))"

text \<open>
  For one catalog row: how many rows of the scope come before it in the descending
  order of the query, and whether the deletion of its file fails.
\<close>

definition ahead :: "string option \<Rightarrow> db \<Rightarrow> backup_row \<Rightarrow> nat" where
  "ahead btype d b =
     length (filter (\<lambda>c. in_scope btype c \<and>
                         (b_created_at b < b_created_at c \<or>
                          b_created_at c = b_created_at b \<and> b_id c < b_id b))
               (backups d))"

definition stuck :: "world \<Rightarrow> backup_row \<Rightarrow> bool" where
  "stuck w b \<longleftrightarrow> path_exists w (file_path b) \<and> file_path b \<in> undeletable w"

text \<open>
  A platform and a world for the worked examples: the digest of a database image is
  taken to be one character per memory row, the database is the one
  \<open>create_tables\<close> makes, and no other file is there.
\<close>

definition sample_digest :: "db \<Rightarrow> string" where
  "sample_digest d = replicate (length (memories d)) CHR ''m''"

definition sample_size :: "db \<Rightarrow> nat" where
  "sample_size d = length (memories d) + length (versions d) + length (backups d)"

definition sample_describe :: "error \<Rightarrow> string" where
  "sample_describe e = ''error''"

definition sample_platform :: platform where
  "sample_platform =
     \<lparr>md5 = sample_digest, getsize = sample_size, timeout_max = 9223372036854775,
      describe = sample_describe\<rparr>"

definition sample_world :: world where
  "sample_world =
     \<lparr>db_path = ''data/memory.db'', conn = True, live = create_tables, files = Map.empty,
      undeletable = {}\<rparr>"

text \<open>
  The sample world with one backup in the catalog: \<open>recorded\<close> is the checksum of
  the catalog row and \<open>file\<close> what the backup file holds, if it is there.
\<close>

definition catalog_world :: "string option \<Rightarrow> db option \<Rightarrow> world" where
  "catalog_world recorded file =
     sample_world
       \<lparr>live := create_tables
          \<lparr>backups := [\<lparr>b_id = 1, backup_type = ''manual'', file_path = ''data/backups/a.db'',
                        size_bytes = Some 0, checksum = recorded, status = ''completed'',
                        description = None, b_created_at = 1\<rparr>],
           backups_seq := 1\<rparr>,
        files := (\<lambda>p. if p = ''data/backups/a.db'' then file else None)\<rparr>"

text \<open>
  Two catalogs for the worked examples: the sample world after five calls of
  \<open>MemoryDB.create_backup\<close> at the seconds 1 to 5, and after five calls within the
  same second.
\<close>

definition backed_up :: "(string \<times> nat) list \<Rightarrow> world \<Rightarrow> world" where
  "backed_up stamps w =
     fold (\<lambda>(ts, now) w'. snd (MemoryDB_create_backup sample_platform ts now ''manual'' w'))
       stamps w"

definition five_backups :: world where
  "five_backups =
     backed_up [(''1'', 1), (''2'', 2), (''3'', 3), (''4'', 4), (''5'', 5)] sample_world"

definition same_second_backups :: world where
  "same_second_backups =
     backed_up [(''2026-01-01_00-00-00'', 1), (''2026-01-01_00-00-00'', 1),
                (''2026-01-01_00-00-00'', 1), (''2026-01-01_00-00-00'', 1),
                (''2026-01-01_00-00-00'', 1)] sample_world"

section \<open>Properties of the record store\<close>

subsection \<open>Shared facts\<close>

lemma consistent_create_tables: "consistent create_tables"
  by (simp add: consistent_def create_tables_def)

lemma fresh_no_memory:
  "consistent d \<Longrightarrow> filter (\<lambda>r. m_id r = memories_seq d + 1 \<and> P r) (memories d) = []"
  by (auto simp: consistent_def filter_empty_conv)

lemma fresh_no_versions:
  "consistent d \<Longrightarrow> filter (\<lambda>v. memory_id v = memories_seq d + 1) (versions d) = []"
  by (fastforce simp: consistent_def filter_empty_conv)

lemma fold_max_upto:
  assumes "1 \<le> k" "xs = [1..k]"
  shows "(case xs of [] \<Rightarrow> None | x # ys \<Rightarrow> Some (fold max ys x)) = Some k"
proof -
  have c: "xs = 1 # [2..k]"
    using assms upto_rec1 [of 1 k] by simp
  have "fold max [2..k] 1 = Max (set (1 # [2..k]))"
    by (simp only: Max.set_eq_fold)
  also have "\<dots> = Max {1..k}"
    using c assms(2) by (metis set_upto)
  also have "\<dots> = k"
    using assms(1) by (simp add: Max_eq_iff)
  finally show ?thesis using c by simp
qed

lemma max_version_upto:
  "1 \<le> k \<Longrightarrow> map version (filter (\<lambda>v. memory_id v = mid) (versions d)) = [1..k]
     \<Longrightarrow> max_version mid d = Some k"
  unfolding max_version_def by (rule fold_max_upto)

lemma live_rows_update:
  "filter (\<lambda>r. m_id r = mid \<and> is_deleted r = 0)
     (map (\<lambda>r. if m_id r = mid \<and> is_deleted r = 0
               then r\<lparr>m_content := doc, updated_at := now\<rparr> else r) rows)
   = map (\<lambda>r. r\<lparr>m_content := doc, updated_at := now\<rparr>)
       (filter (\<lambda>r. m_id r = mid \<and> is_deleted r = 0) rows)"
  by (induction rows) auto

lemma update_memory_True:
  assumes "update_memory now mid doc by reason d = (Inr True, d')"
  shows "live_rows mid d' = map (\<lambda>r. r\<lparr>m_content := doc, updated_at := now\<rparr>) (live_rows mid d)"
    and "live_rows mid d \<noteq> []"
    and "doc \<noteq> []"
    and "versions d' = versions d @
           [\<lparr>v_id = versions_seq d + 1, memory_id = mid,
             version = (case max_version mid d of None \<Rightarrow> 0 | Some m \<Rightarrow> m) + 1,
             v_content = doc, changed_by = by, change_reason = reason, v_created_at = now\<rparr>]"
  using assms
  by (auto simp: update_memory_def Let_def live_rows_def live_rows_update split: if_splits)

lemma update_memory_get:
  assumes "update_memory now mid doc by reason d = (Inr True, d')"
  shows "map_option g_content (get_memory mid d') = Some doc"
  using update_memory_True(1,2) [OF assms]
  by (cases "live_rows mid d") (auto simp: get_memory_def)

lemma update_memory_succeeds:
  "doc \<noteq> [] \<Longrightarrow> live_rows mid d \<noteq> [] \<Longrightarrow>
     fst (update_memory now mid doc by reason d) = Inr True"
  by (simp add: update_memory_def Let_def)

text \<open>
  The loop invariant of a run of updates: the version numbers of the memory, in
  insertion order, are \<open>1..k\<close>.
\<close>

lemma updates_history:
  assumes "map version (filter (\<lambda>v. memory_id v = mid) (versions d)) = [1..k]" "1 \<le> k"
    and "updates mid us d = Some d'"
  shows "map version (filter (\<lambda>v. memory_id v = mid) (versions d')) = [1..k + int (length us)] \<and>
         map v_content (filter (\<lambda>v. memory_id v = mid) (versions d'))
           = map v_content (filter (\<lambda>v. memory_id v = mid) (versions d)) @ map u_content us \<and>
         (us \<noteq> [] \<longrightarrow> map_option g_content (get_memory mid d') = Some (u_content (last us))) \<and>
         (us = [] \<longrightarrow> d' = d)"
  using assms
proof (induction us arbitrary: d k)
  case Nil
  then show ?case by simp
next
  case (Cons u us)
  from Cons.prems(3) obtain d1 where
    step: "update_memory (u_now u) mid (u_content u) (u_changed_by u) (u_change_reason u) d
             = (Inr True, d1)"
    and rest: "updates mid us d1 = Some d'"
    by (auto split: prod.splits sum.splits bool.splits)
  have mv: "max_version mid d = Some k"
    using Cons.prems(1,2) by (simp add: max_version_upto)
  have vs: "map version (filter (\<lambda>v. memory_id v = mid) (versions d1)) = [1..k + 1]"
    using update_memory_True(4) [OF step] mv Cons.prems(1,2) upto_rec2 [of 1 "k + 1"] by simp
  have cs: "map v_content (filter (\<lambda>v. memory_id v = mid) (versions d1))
              = map v_content (filter (\<lambda>v. memory_id v = mid) (versions d)) @ [u_content u]"
    using update_memory_True(4) [OF step] by simp
  have k1: "1 \<le> k + 1" using Cons.prems(2) by simp
  note ih = Cons.IH [OF vs k1 rest]
  have len: "k + 1 + int (length us) = k + int (length (u # us))" by simp
  show ?case
  proof (cases "us = []")
    case True
    with ih have "d' = d1" by simp
    with True vs cs update_memory_get [OF step] show ?thesis by simp
  next
    case False
    with ih cs len show ?thesis by (simp add: add.assoc)
  qed
qed

subsection \<open>Creation\<close>

text \<open>
  C2. \<open>save_memory\<close> called with an empty content, with a type other than
  \<open>session\<close>, \<open>daily\<close>, \<open>longterm\<close>, or with an importance outside 0..10 raises
  \<open>ValueError\<close> (the validation error) and leaves the database as it was: no memory
  row and no version row is inserted.
\<close>

theorem create_invalid_rejected:
  assumes "doc = [] \<or> mtype \<notin> {''session'', ''daily'', ''longterm''} \<or> imp < 0 \<or> 10 < imp"
  shows "save_memory now mtype doc sid dt imp tgs d = (Inl ValueError, d)"
  using assms by (auto simp: save_memory_def)

text \<open>The scenario of the specification: a \<open>longterm\<close> memory with importance 12.\<close>

theorem create_invalid_rejected_witness:
  "(10::int) < 12 \<and>
   save_memory 0 ''longterm'' [(''title'', JStr ''x'')] None None 12 [] create_tables
     = (Inl ValueError, create_tables)"
  using create_invalid_rejected
    [of "[(''title'', JStr ''x'')]" "''longterm''" 12 0 None None "[]" create_tables]
  by simp

text \<open>
  C7. For a non-empty content, a legal type and an importance in 0..10, \<open>save_memory\<close>
  returns an id; \<open>get_memory\<close> of that id returns the submitted content, and
  \<open>get_versions\<close> of that id is exactly one version, numbered 1, changed by
  \<open>system\<close>, holding the submitted content.
\<close>

theorem create_then_read:
  assumes "consistent d" "doc \<noteq> []" "mtype \<in> {''session'', ''daily'', ''longterm''}"
    "0 \<le> imp" "imp \<le> 10"
  shows "case save_memory now mtype doc sid dt imp tgs d of
           (Inl e, d') \<Rightarrow> False
         | (Inr mid, d') \<Rightarrow>
             map_option g_content (get_memory mid d') = Some doc \<and>
             map (\<lambda>v. (version v, changed_by v, v_content v)) (get_versions mid d')
               = [(1, ''system'', doc)]"
  using assms fresh_no_memory [OF assms(1), of "\<lambda>r. is_deleted r = 0"]
    fresh_no_versions [OF assms(1)]
  by (auto simp: save_memory_def Let_def get_memory_def live_rows_def get_versions_def)

theorem create_then_read_witness:
  "consistent create_tables \<and>
   (case save_memory 7 ''session'' [(''title'', JStr ''x'')] (Some ''s1'') None 5 [''a'', ''b'']
           create_tables of
      (Inl e, d') \<Rightarrow> False
    | (Inr mid, d') \<Rightarrow>
        map_option g_content (get_memory mid d') = Some [(''title'', JStr ''x'')] \<and>
        map (\<lambda>v. (version v, changed_by v, v_content v)) (get_versions mid d')
          = [(1, ''system'', [(''title'', JStr ''x'')])])"
  using create_then_read [OF consistent_create_tables,
      of "[(''title'', JStr ''x'')]" "''session''" 5 7 "Some ''s1''" None "[''a'', ''b'']"]
    consistent_create_tables
  by simp

subsection \<open>Updates\<close>

text \<open>
  C1. After \<open>save_memory\<close> has created a memory and a run of N \<open>update_memory\<close> calls
  on it has returned \<open>True\<close> each time, \<open>get_versions\<close> returns exactly N+1 versions,
  numbered 1, 2, ..., N+1 in this order, holding the created content followed by the
  content of each update, and \<open>get_memory\<close> returns the content of the last update
  (the created content when N = 0).
\<close>

theorem update_history:
  assumes "consistent d"
    and "save_memory now mtype doc sid dt imp tgs d = (Inr mid, d1)"
    and "updates mid us d1 = Some d2"
  shows "map version (get_versions mid d2) = [1..int (length us) + 1] \<and>
         length (get_versions mid d2) = length us + 1 \<and>
         map v_content (get_versions mid d2) = doc # map u_content us \<and>
         map_option g_content (get_memory mid d2) = Some (last (doc # map u_content us))"
proof -
  have mid: "mid = memories_seq d + 1"
    using assms(2) by (auto simp: save_memory_def Let_def split: if_splits)
  have v1: "filter (\<lambda>v. memory_id v = mid) (versions d1) =
              [\<lparr>v_id = versions_seq d + 1, memory_id = mid, version = 1,
                v_content = doc, changed_by = ''system'',
                change_reason = Some ''Initial creation'', v_created_at = now\<rparr>]"
    using assms(2) fresh_no_versions [OF assms(1)]
    by (auto simp: save_memory_def Let_def split: if_splits)
  have g1: "map_option g_content (get_memory mid d1) = Some doc"
    using assms(2) fresh_no_memory [OF assms(1), of "\<lambda>r. is_deleted r = 0"]
    by (auto simp: save_memory_def Let_def get_memory_def live_rows_def split: if_splits)
  have s1: "map version (filter (\<lambda>v. memory_id v = mid) (versions d1)) = [1..1]"
    using v1 by simp
  note h = updates_history [OF s1 _ assms(3), simplified]
  have vs: "map version (filter (\<lambda>v. memory_id v = mid) (versions d2)) = [1..int (length us) + 1]"
    using h by (simp add: add.commute)
  have "sorted (map version (filter (\<lambda>v. memory_id v = mid) (versions d2)))"
    unfolding vs by simp
  then have gv: "get_versions mid d2 = filter (\<lambda>v. memory_id v = mid) (versions d2)"
    unfolding get_versions_def by (rule sort_key_id_if_sorted)
  have len: "length (get_versions mid d2) = length us + 1"
    using arg_cong [OF vs, of length] unfolding gv by simp
  have cs: "map v_content (get_versions mid d2) = doc # map u_content us"
    unfolding gv using h v1 by simp
  have cur: "map_option g_content (get_memory mid d2) = Some (last (doc # map u_content us))"
  proof (cases "us = []")
    case True
    with h g1 show ?thesis by simp
  next
    case False
    with h show ?thesis by (simp add: last_map)
  qed
  from vs gv len cs cur show ?thesis by simp
qed

theorem update_history_witness:
  "\<exists>d1 d2.
     consistent create_tables \<and>
     save_memory 1 ''daily'' [(''n'', JInt 0)] None (Some ''2026-01-01'') 3 [] create_tables
       = (Inr 1, d1) \<and>
     updates 1
       [\<lparr>u_now = 2, u_content = [(''n'', JInt 1)], u_changed_by = ''user'',
         u_change_reason = None\<rparr>,
        \<lparr>u_now = 3, u_content = [(''n'', JInt 2)], u_changed_by = ''user'',
         u_change_reason = Some ''fix''\<rparr>] d1 = Some d2 \<and>
     map version (get_versions 1 d2) = [1, 2, 3] \<and>
     map v_content (get_versions 1 d2)
       = [[(''n'', JInt 0)], [(''n'', JInt 1)], [(''n'', JInt 2)]] \<and>
     map_option g_content (get_memory 1 d2) = Some [(''n'', JInt 2)]"
proof -
  let ?us = "[\<lparr>u_now = 2, u_content = [(''n'', JInt 1)], u_changed_by = ''user'',
               u_change_reason = None\<rparr>,
              \<lparr>u_now = 3, u_content = [(''n'', JInt 2)], u_changed_by = ''user'',
               u_change_reason = Some ''fix''\<rparr>]"
  obtain d1 where s:
    "save_memory 1 ''daily'' [(''n'', JInt 0)] None (Some ''2026-01-01'') 3 [] create_tables
       = (Inr 1, d1)"
    by (simp add: save_memory_def create_tables_def)
  have d1: "d1 = snd (save_memory 1 ''daily'' [(''n'', JInt 0)] None (Some ''2026-01-01'') 3 []
                        create_tables)"
    using s by simp
  obtain d2 where u: "updates 1 ?us d1 = Some d2"
    unfolding d1 by (simp add: save_memory_def create_tables_def update_memory_def live_rows_def)
  have up: "[1..3] = [1, 2, 3::int]"
    by (simp add: upto_rec1)
  from update_history [OF consistent_create_tables s u] consistent_create_tables s u up
  show ?thesis by simp
qed

subsection \<open>The constraints are kept by every operation\<close>

lemma consistent_save_memory:
  "consistent d \<Longrightarrow> consistent (snd (save_memory now mtype doc sid dt imp tgs d))"
  by (fastforce simp: save_memory_def Let_def consistent_def image_iff)

lemma consistent_update_memory:
  assumes "consistent d"
  shows "consistent (snd (update_memory now mid doc by reason d))"
proof (cases "doc = [] \<or> live_rows mid d = []")
  case True
  with assms show ?thesis by (auto simp: update_memory_def Let_def)
next
  case False
  then obtain r where r: "r \<in> set (memories d)" "m_id r = mid"
    by (fastforce simp: live_rows_def filter_empty_conv)
  have ids: "map m_id (map (\<lambda>r. if m_id r = mid \<and> is_deleted r = 0
               then r\<lparr>m_content := doc, updated_at := now\<rparr> else r) (memories d))
             = map m_id (memories d)"
    by (induction "memories d") (auto simp: comp_def)
  have img: "m_id ` set (map (\<lambda>r. if m_id r = mid \<and> is_deleted r = 0
               then r\<lparr>m_content := doc, updated_at := now\<rparr> else r) (memories d))
             = m_id ` set (memories d)"
    using arg_cong [OF ids, of set] by (simp only: set_map)
  from False assms r ids img show ?thesis
    unfolding update_memory_def Let_def consistent_def
    by (simp del: set_map map_map) (force simp: image_iff)
qed

lemma consistent_delete_memory:
  "consistent d \<Longrightarrow> consistent (snd (delete_memory mid permanent d))"
  by (auto simp: delete_memory_def consistent_def distinct_map_filter image_iff)

lemma consistent_rollback:
  assumes "consistent d"
  shows "consistent (snd (rollback_to_version now mid ver d))"
proof -
  have "snd (rollback_to_version now mid ver d) = d \<or>
        (\<exists>m doc who reason. snd (rollback_to_version now mid ver d)
             = snd (update_memory now m doc who reason d))"
    by (auto simp: rollback_to_version_def restore_version_def split: list.splits)
  with assms consistent_update_memory [OF assms] show ?thesis by auto
qed

subsection \<open>Updating a memory that is not there\<close>

text \<open>
  C3, as the code has it. When \<open>get_memory\<close> finds no live memory with the id,
  \<open>update_memory\<close> leaves the whole database, the versions table included, as it was.
  It raises no not-found exception: with a non-empty content it returns \<open>False\<close>, and
  with an empty content the guard on the content comes first and raises \<open>ValueError\<close>.
\<close>

theorem update_not_found:
  assumes "get_memory mid d = None"
  shows "update_memory now mid doc by reason d
           = (if doc = [] then Inl ValueError else Inr False, d)"
  using assms
  by (auto simp: update_memory_def get_memory_def Let_def split: list.splits)

theorem update_not_found_witness:
  "get_memory 999 create_tables = None \<and>
   update_memory 4 999 [(''k'', JInt 1)] ''user'' None create_tables = (Inr False, create_tables)"
  using update_not_found [of 999 create_tables 4 "[(''k'', JInt 1)]" "''user''" None]
  by (simp add: get_memory_def live_rows_def create_tables_def)

text \<open>
  The claim as stated asks for a not-found exception. On the new database, updating
  id 999 returns \<open>False\<close> without raising, and with an empty content the exception is
  the validation error.
\<close>

theorem update_not_found_counterexample:
  "get_memory 999 create_tables = None \<and>
   update_memory 4 999 [(''k'', JInt 1)] ''user'' None create_tables = (Inr False, create_tables) \<and>
   update_memory 4 999 [] ''user'' None create_tables = (Inl ValueError, create_tables)"
  by (simp add: get_memory_def live_rows_def create_tables_def update_memory_def max_version_def)

subsection \<open>Deletion\<close>

text \<open>
  C4. A soft delete (\<open>permanent = False\<close>) of any memory raises \<open>UnboundLocalError\<close>
  and changes nothing: \<open>get_memory\<close> returns afterwards what it returned before, so
  the memory is not hidden from reads.
\<close>

theorem soft_delete_raises:
  "delete_memory mid False d = (Inl UnboundLocalError, d) \<and>
   get_memory mid (snd (delete_memory mid False d)) = get_memory mid d"
  by (simp add: delete_memory_def)

text \<open>The permanent delete removes the memory row and all of its version rows.\<close>

lemma delete_permanent:
  "fst (delete_memory mid True d) = Inr (mid \<in> m_id ` set (memories d)) \<and>
   get_memory mid (snd (delete_memory mid True d)) = None \<and>
   get_versions mid (snd (delete_memory mid True d)) = []"
  by (auto simp: delete_memory_def get_memory_def live_rows_def get_versions_def
      filter_empty_conv image_iff)

subsection \<open>Rollback\<close>

lemma insort_key_snoc:
  "f a \<le> f x \<Longrightarrow> insort_key f a (ys @ [x]) = insort_key f a ys @ [x]"
  by (induction ys) auto

lemma sort_key_snoc:
  "\<forall>y \<in> set xs. f y \<le> f x \<Longrightarrow> sort_key f (xs @ [x]) = sort_key f xs @ [x]"
proof (induction xs)
  case Nil
  then show ?case by simp
next
  case (Cons a xs)
  then show ?case by (simp add: insort_key_snoc)
qed

lemma max_version_Max:
  "max_version mid d =
     (if filter (\<lambda>v. memory_id v = mid) (versions d) = [] then None
      else Some (Max (version ` set (filter (\<lambda>v. memory_id v = mid) (versions d)))))"
proof (cases "filter (\<lambda>v. memory_id v = mid) (versions d)")
  case Nil
  then show ?thesis by (simp add: max_version_def)
next
  case (Cons a as)
  have "fold max (map version as) (version a) = Max (set (version a # map version as))"
    by (simp only: Max.set_eq_fold)
  with Cons show ?thesis by (simp add: max_version_def)
qed

lemma filter_distinct_key:
  "distinct (map f xs) \<Longrightarrow> t \<in> set xs \<Longrightarrow> filter (\<lambda>v. f v = f t) xs = [t]"
proof (induction xs)
  case Nil
  then show ?case by simp
next
  case (Cons a xs)
  show ?case
  proof (cases "a = t")
    case True
    with Cons.prems have "filter (\<lambda>v. f v = f t) xs = []"
      by (auto simp: filter_empty_conv image_iff)
    with True show ?thesis by simp
  next
    case False
    with Cons.prems have "t \<in> set xs" "f a \<noteq> f t" by (auto simp: image_iff)
    with Cons show ?thesis by simp
  qed
qed

lemma update_memory_cases:
  "update_memory now mid doc by reason d = (Inl ValueError, d) \<or>
   update_memory now mid doc by reason d = (Inr False, d) \<or>
   (\<exists>d'. update_memory now mid doc by reason d = (Inr True, d'))"
  by (simp add: update_memory_def Let_def)

lemma max_version_append:
  assumes "versions d' = versions d @ [new]" "memory_id new = mid"
    and "version new = (case max_version mid d of None \<Rightarrow> 0 | Some m \<Rightarrow> m) + 1"
  shows "max_version mid d = Some m \<Longrightarrow> max_version mid d' = Some (m + 1)"
    and "\<forall>v \<in> set (filter (\<lambda>v. memory_id v = mid) (versions d)). version v \<le> version new"
proof -
  let ?S = "version ` set (filter (\<lambda>v. memory_id v = mid) (versions d))"
  show "max_version mid d = Some m \<Longrightarrow> max_version mid d' = Some (m + 1)"
  proof -
    assume m: "max_version mid d = Some m"
    then have ne0: "filter (\<lambda>v. memory_id v = mid) (versions d) \<noteq> []" and mx: "Max ?S = m"
      by (simp_all add: max_version_Max split: if_splits)
    from ne0 have ne: "?S \<noteq> {}"
      by (simp only: image_is_empty set_empty not_False_eq_True)
    have "version ` set (filter (\<lambda>v. memory_id v = mid) (versions d')) = insert (m + 1) ?S"
      using assms m by auto
    moreover have "Max (insert (m + 1) ?S) = m + 1"
      using ne mx by (simp add: max_def)
    ultimately show ?thesis
      using assms(1,2) by (simp add: max_version_Max)
  qed
  show "\<forall>v \<in> set (filter (\<lambda>v. memory_id v = mid) (versions d)). version v \<le> version new"
  proof
    fix v assume v: "v \<in> set (filter (\<lambda>v. memory_id v = mid) (versions d))"
    then have ne: "filter (\<lambda>v. memory_id v = mid) (versions d) \<noteq> []"
      by (auto simp: filter_empty_conv)
    have "version v \<le> Max ?S" using v by (intro Max_ge) auto
    with ne assms(3) show "version v \<le> version new"
      by (simp add: max_version_Max)
  qed
qed

lemma rollback_cases:
  "rollback_to_version now mid ver d = (Inl ValueError, d) \<or>
   rollback_to_version now mid ver d = (Inr False, d) \<or>
   (\<exists>(t::version_row) by reason d'.
      update_memory now (memory_id t) (v_content t) by reason d = (Inr True, d') \<and>
      rollback_to_version now mid ver d = (Inr True, d'))"
proof (cases "filter (\<lambda>v. version v = ver) (get_versions mid d)")
  case Nil
  then show ?thesis by (simp add: rollback_to_version_def)
next
  case (Cons target rest)
  show ?thesis
  proof (cases "filter (\<lambda>v. v_id v = v_id target) (versions d)")
    case Nil
    with Cons show ?thesis by (simp add: rollback_to_version_def restore_version_def)
  next
    case inner: (Cons row rows)
    define reason where "reason = Some (''Restored from version '' @ str_int (v_id target))"
    define who where "who = ''system''"
    have r: "rollback_to_version now mid ver d =
               update_memory now (memory_id row) (v_content row) who reason d"
      using Cons inner
      by (simp add: rollback_to_version_def restore_version_def reason_def who_def)
    from update_memory_cases [of now "memory_id row" "v_content row" who reason d]
    show ?thesis
    proof (elim disjE exE)
      assume "update_memory now (memory_id row) (v_content row) who reason d = (Inl ValueError, d)"
      with r show ?thesis by simp
    next
      assume "update_memory now (memory_id row) (v_content row) who reason d = (Inr False, d)"
      with r show ?thesis by simp
    next
      fix d' assume u: "update_memory now (memory_id row) (v_content row) who reason d = (Inr True, d')"
      with r have "rollback_to_version now mid ver d = (Inr True, d')" by simp
      with u show ?thesis by blast
    qed
  qed
qed

text \<open>
  Rollback on any consistent database, soft-deleted memories included: it needs the
  memory to be live.
\<close>

lemma rollback_to_version_live:
  assumes "consistent d"
  shows "(filter (\<lambda>v. version v = ver) (get_versions mid d) = [] \<longrightarrow>
            rollback_to_version now mid ver d = (Inr False, d)) \<and>
         (\<forall>t rest. filter (\<lambda>v. version v = ver) (get_versions mid d) = t # rest \<and>
                   get_memory mid d \<noteq> None \<longrightarrow>
            (\<exists>d' new m.
               rollback_to_version now mid ver d = (Inr True, d') \<and>
               max_version mid d = Some m \<and>
               versions d' = versions d @ [new] \<and>
               get_versions mid d' = get_versions mid d @ [new] \<and>
               v_content new = v_content t \<and>
               version new = m + 1 \<and>
               max_version mid d' = Some (m + 1) \<and>
               map_option g_content (get_memory mid d') = Some (v_content t))) \<and>
         (\<exists>suffix. versions (snd (rollback_to_version now mid ver d)) = versions d @ suffix) \<and>
         (\<forall>m. max_version mid d = Some m \<longrightarrow>
            (\<exists>m'. max_version mid (snd (rollback_to_version now mid ver d)) = Some m' \<and> m \<le> m'))"
proof (intro conjI allI impI)
  assume "filter (\<lambda>v. version v = ver) (get_versions mid d) = []"
  then show "rollback_to_version now mid ver d = (Inr False, d)"
    by (simp add: rollback_to_version_def)
next
  fix t rest
  assume a: "filter (\<lambda>v. version v = ver) (get_versions mid d) = t # rest \<and> get_memory mid d \<noteq> None"
  let ?reason = "Some (''Restored from version '' @ str_int (v_id t))"
  from a have "t \<in> set (filter (\<lambda>v. version v = ver) (get_versions mid d))" by simp
  then have t_in: "t \<in> set (versions d)" and t_mid: "memory_id t = mid"
    by (auto simp: get_versions_def)
  have t_doc: "v_content t \<noteq> []"
    using assms t_in by (simp add: consistent_def)
  have "distinct (map v_id (versions d))"
    using assms by (simp add: consistent_def)
  then have ft: "filter (\<lambda>v. v_id v = v_id t) (versions d) = [t]"
    using t_in by (rule filter_distinct_key)
  have r: "rollback_to_version now mid ver d = update_memory now mid (v_content t) ''system'' ?reason d"
    using a ft t_mid by (simp add: rollback_to_version_def restore_version_def)
  have live: "live_rows mid d \<noteq> []"
    using a by (auto simp: get_memory_def split: list.splits)
  obtain d' where u: "update_memory now mid (v_content t) ''system'' ?reason d = (Inr True, d')"
    using update_memory_succeeds [OF t_doc live, of now "''system''" ?reason]
    by (cases "update_memory now mid (v_content t) ''system'' ?reason d") auto
  have ne: "filter (\<lambda>v. memory_id v = mid) (versions d) \<noteq> []"
    using t_in t_mid by (auto simp: filter_empty_conv)
  then obtain m where m: "max_version mid d = Some m"
    by (simp add: max_version_Max)
  define new where "new = \<lparr>v_id = versions_seq d + 1, memory_id = mid, version = m + 1,
      v_content = v_content t, changed_by = ''system'', change_reason = ?reason, v_created_at = now\<rparr>"
  have vs: "versions d' = versions d @ [new]"
    using update_memory_True(4) [OF u] m by (simp add: new_def)
  have nv: "version new = (case max_version mid d of None \<Rightarrow> 0 | Some m \<Rightarrow> m) + 1"
    using m by (simp add: new_def)
  have nm: "memory_id new = mid" by (simp add: new_def)
  have le: "\<forall>v \<in> set (filter (\<lambda>v. memory_id v = mid) (versions d)). version v \<le> version new"
    by (rule max_version_append(2) [OF vs nm nv])
  have gv: "get_versions mid d' = get_versions mid d @ [new]"
    using sort_key_snoc [OF le] vs nm by (simp add: get_versions_def)
  have "rollback_to_version now mid ver d = (Inr True, d') \<and>
        max_version mid d = Some m \<and> versions d' = versions d @ [new] \<and>
        get_versions mid d' = get_versions mid d @ [new] \<and>
        v_content new = v_content t \<and> version new = m + 1 \<and>
        max_version mid d' = Some (m + 1) \<and>
        map_option g_content (get_memory mid d') = Some (v_content t)"
    using r u m vs gv max_version_append(1) [OF vs nm nv m] update_memory_get [OF u]
    by (simp add: new_def)
  then show "\<exists>d' new m.
               rollback_to_version now mid ver d = (Inr True, d') \<and>
               max_version mid d = Some m \<and>
               versions d' = versions d @ [new] \<and>
               get_versions mid d' = get_versions mid d @ [new] \<and>
               v_content new = v_content t \<and>
               version new = m + 1 \<and>
               max_version mid d' = Some (m + 1) \<and>
               map_option g_content (get_memory mid d') = Some (v_content t)"
    by blast
next
  from rollback_cases [of now mid ver d]
  show "\<exists>suffix. versions (snd (rollback_to_version now mid ver d)) = versions d @ suffix"
    using update_memory_True(4) by (elim disjE exE conjE) (simp, simp, fastforce)
next
  fix m assume m: "max_version mid d = Some m"
  have "snd (rollback_to_version now mid ver d) = d \<or>
        (\<exists>(t::version_row) who reason d'.
           update_memory now (memory_id t) (v_content t) who reason d = (Inr True, d') \<and>
           snd (rollback_to_version now mid ver d) = d')"
    using rollback_cases [of now mid ver d] by (metis snd_conv)
  then consider "snd (rollback_to_version now mid ver d) = d"
    | t :: version_row and who reason d' where
        "update_memory now (memory_id t) (v_content t) who reason d = (Inr True, d')"
        "snd (rollback_to_version now mid ver d) = d'"
    by blast
  then show "\<exists>m'. max_version mid (snd (rollback_to_version now mid ver d)) = Some m' \<and> m \<le> m'"
  proof cases
    case 1
    with m show ?thesis by simp
  next
    case 2
    let ?S = "version ` set (filter (\<lambda>v. memory_id v = mid) (versions d))"
    from m have ne: "filter (\<lambda>v. memory_id v = mid) (versions d) \<noteq> []" and mx: "Max ?S = m"
      by (auto simp: max_version_Max split: if_splits)
    from update_memory_True(4) [OF 2(1)] obtain new where vs: "versions d' = versions d @ [new]"
      by blast
    let ?S' = "version ` set (filter (\<lambda>v. memory_id v = mid) (versions d'))"
    have sub: "?S \<subseteq> ?S'" using vs by auto
    have ne': "filter (\<lambda>v. memory_id v = mid) (versions d') \<noteq> []"
      using ne vs by simp
    have "Max ?S \<le> Max ?S'"
      using sub ne by (intro Max_mono) (auto simp: filter_empty_conv)
    with ne' mx 2(2) show ?thesis by (simp add: max_version_Max)
  qed
qed

lemma all_live_create_tables: "all_live create_tables"
  by (simp add: all_live_def create_tables_def)

lemma all_live_save_memory:
  "all_live d \<Longrightarrow> all_live (snd (save_memory now mtype doc sid dt imp tgs d))"
  by (auto simp: save_memory_def Let_def all_live_def)

lemma all_live_update_memory:
  "all_live d \<Longrightarrow> all_live (snd (update_memory now mid doc by reason d))"
  by (auto simp: update_memory_def Let_def all_live_def)

lemma all_live_delete_memory:
  "all_live d \<Longrightarrow> all_live (snd (delete_memory mid permanent d))"
  by (auto simp: delete_memory_def all_live_def)

lemma all_live_restore_version:
  "all_live d \<Longrightarrow> all_live (snd (restore_version now vid d))"
  by (auto simp: restore_version_def all_live_update_memory split: list.splits)

lemma all_live_rollback:
  "all_live d \<Longrightarrow> all_live (snd (rollback_to_version now mid ver d))"
  by (auto simp: rollback_to_version_def all_live_restore_version split: list.splits)

lemma version_owner_live:
  assumes "consistent d" "all_live d" "t \<in> set (get_versions mid d)"
  shows "get_memory mid d \<noteq> None"
proof -
  from assms(3) have "t \<in> set (versions d)" "memory_id t = mid"
    by (auto simp: get_versions_def)
  with assms(1) obtain r where "r \<in> set (memories d)" "m_id r = mid"
    by (auto simp: consistent_def)
  with assms(2) have "r \<in> set (live_rows mid d)"
    by (simp add: live_rows_def all_live_def)
  then show ?thesis
    by (cases "live_rows mid d") (auto simp: get_memory_def)
qed

text \<open>
  C5. On every database the operations make (consistent, and with no soft-deleted
  memory): when the memory has no version numbered \<open>ver\<close>, \<open>rollback_to_version\<close>
  returns \<open>False\<close> and the database is unchanged. When it has one (\<open>t\<close>, the first
  found), the rollback returns \<open>True\<close>, the versions table gains exactly one row at
  its end, that row holds the content of \<open>t\<close> and carries the previous maximum
  version number plus 1, the new maximum is that number, and \<open>get_memory\<close> returns
  the content of \<open>t\<close>. In every case the old rows of the versions table stay in
  place and the maximum version number does not decrease.
\<close>

theorem rollback_to_version_correct:
  assumes "consistent d" "all_live d"
  shows "(filter (\<lambda>v. version v = ver) (get_versions mid d) = [] \<longrightarrow>
            rollback_to_version now mid ver d = (Inr False, d)) \<and>
         (\<forall>t rest. filter (\<lambda>v. version v = ver) (get_versions mid d) = t # rest \<longrightarrow>
            (\<exists>d' new m.
               rollback_to_version now mid ver d = (Inr True, d') \<and>
               max_version mid d = Some m \<and>
               versions d' = versions d @ [new] \<and>
               get_versions mid d' = get_versions mid d @ [new] \<and>
               v_content new = v_content t \<and>
               version new = m + 1 \<and>
               max_version mid d' = Some (m + 1) \<and>
               map_option g_content (get_memory mid d') = Some (v_content t))) \<and>
         (\<exists>suffix. versions (snd (rollback_to_version now mid ver d)) = versions d @ suffix) \<and>
         (\<forall>m. max_version mid d = Some m \<longrightarrow>
            (\<exists>m'. max_version mid (snd (rollback_to_version now mid ver d)) = Some m' \<and> m \<le> m'))"
proof -
  note l = rollback_to_version_live [OF assms(1), of ver mid now]
  have live: "get_memory mid d \<noteq> None"
    if "filter (\<lambda>v. version v = ver) (get_versions mid d) = t # rest" for t rest
  proof -
    have "t \<in> set (filter (\<lambda>v. version v = ver) (get_versions mid d))"
      by (simp add: that)
    then have "t \<in> set (get_versions mid d)" by simp
    then show ?thesis by (rule version_owner_live [OF assms])
  qed
  from l live show ?thesis by blast
qed

theorem rollback_to_version_correct_witness:
  "\<exists>d1 d2 d3.
     save_memory 1 ''longterm'' [(''n'', JInt 0)] None None 0 [] create_tables = (Inr 1, d1) \<and>
     update_memory 2 1 [(''n'', JInt 1)] ''user'' None d1 = (Inr True, d2) \<and>
     consistent d2 \<and> all_live d2 \<and>
     rollback_to_version 3 1 1 d2 = (Inr True, d3) \<and>
     map version (get_versions 1 d3) = [1, 2, 3] \<and>
     map v_content (get_versions 1 d3)
       = [[(''n'', JInt 0)], [(''n'', JInt 1)], [(''n'', JInt 0)]] \<and>
     map_option g_content (get_memory 1 d3) = Some [(''n'', JInt 0)] \<and>
     rollback_to_version 3 1 7 d2 = (Inr False, d2)"
proof -
  obtain d1 where s:
    "save_memory 1 ''longterm'' [(''n'', JInt 0)] None None 0 [] create_tables = (Inr 1, d1)"
    by (simp add: save_memory_def create_tables_def)
  have d1: "d1 = snd (save_memory 1 ''longterm'' [(''n'', JInt 0)] None None 0 [] create_tables)"
    using s by simp
  obtain d2 where u: "update_memory 2 1 [(''n'', JInt 1)] ''user'' None d1 = (Inr True, d2)"
    unfolding d1 by (simp add: save_memory_def create_tables_def update_memory_def live_rows_def)
  have d2: "d2 = snd (update_memory 2 1 [(''n'', JInt 1)] ''user'' None d1)"
    using u by simp
  have c2: "consistent d2"
    unfolding d2 d1
    by (intro consistent_update_memory consistent_save_memory consistent_create_tables)
  have l2: "all_live d2"
    unfolding d2 d1
    by (intro all_live_update_memory all_live_save_memory all_live_create_tables)
  let ?v1 = "\<lparr>v_id = 1, memory_id = 1, version = 1, v_content = [(''n'', JInt 0)],
              changed_by = ''system'', change_reason = Some ''Initial creation'',
              v_created_at = 1\<rparr>"
  let ?v2 = "\<lparr>v_id = 2, memory_id = 1, version = 2, v_content = [(''n'', JInt 1)],
              changed_by = ''user'', change_reason = None, v_created_at = 2\<rparr>"
  have gv: "get_versions 1 d2 = [?v1, ?v2]"
    unfolding d2 d1
    by (simp add: save_memory_def create_tables_def update_memory_def live_rows_def
        get_versions_def max_version_def)
  have mv: "max_version 1 d2 = Some 2"
    unfolding d2 d1
    by (simp add: save_memory_def create_tables_def update_memory_def live_rows_def
        max_version_def)
  have live: "get_memory 1 d2 \<noteq> None"
    unfolding d2 d1
    by (simp add: save_memory_def create_tables_def update_memory_def live_rows_def get_memory_def)
  have f1: "filter (\<lambda>v. version v = 1) (get_versions 1 d2) = ?v1 # []"
    unfolding gv by simp
  have f7: "filter (\<lambda>v. version v = 7) (get_versions 1 d2) = []"
    unfolding gv by simp
  from rollback_to_version_correct [OF c2 l2, of 1 1 3] f1
  obtain d3 new m where r:
    "rollback_to_version 3 1 1 d2 = (Inr True, d3)" "max_version 1 d2 = Some m"
    "get_versions 1 d3 = get_versions 1 d2 @ [new]" "v_content new = v_content ?v1"
    "version new = m + 1" "map_option g_content (get_memory 1 d3) = Some (v_content ?v1)"
    by blast
  from rollback_to_version_correct [OF c2 l2, of 7 1 3] f7
  have n: "rollback_to_version 3 1 7 d2 = (Inr False, d2)"
    by blast
  from r mv gv have "map version (get_versions 1 d3) = [1, 2, 3]"
    "map v_content (get_versions 1 d3)
       = [[(''n'', JInt 0)], [(''n'', JInt 1)], [(''n'', JInt 0)]]"
    "map_option g_content (get_memory 1 d3) = Some [(''n'', JInt 0)]"
    by simp_all
  with s u c2 l2 r(1) n show ?thesis
    by - (rule exI [of _ d1], rule exI [of _ d2], rule exI [of _ d3], simp)
qed

section \<open>Properties of the persistence queue\<close>

lemma save_memory_accepted:
  assumes "accepted mtype doc kw"
  shows "\<exists>mid d'. save_memory now mtype doc (kw_session_id kw) (kw_date kw) (kw_importance kw)
            (kw_tags kw) d = (Inr mid, d') \<and>
          persisted d' = persisted d @ [written mtype doc kw] \<and>
          length (versions d') = length (versions d) + 1"
  using assms by (simp add: accepted_def save_memory_def Let_def persisted_def written_def)

lemma save_memory_rejected:
  assumes "\<not> accepted mtype doc kw"
  shows "save_memory now mtype doc (kw_session_id kw) (kw_date kw) (kw_importance kw)
            (kw_tags kw) d = (Inl ValueError, d)"
  using assms by (auto simp: accepted_def save_memory_def)

lemma save_items_count:
  "save_items now its n d = (e, n', d') \<Longrightarrow>
     n \<le> n' \<and> length (memories d') = length (memories d) + (n' - n)"
proof (induction its arbitrary: n d)
  case Nil
  then show ?case by simp
next
  case (Cons it its)
  show ?case
  proof (cases "item_accepted it")
    case True
    from save_memory_accepted [OF True [unfolded item_accepted_def], of now d]
    obtain mid d1 where s: "save_memory now (i_memory_type it) (i_content it)
        (kw_session_id (i_kwargs it)) (kw_date (i_kwargs it)) (kw_importance (i_kwargs it))
        (kw_tags (i_kwargs it)) d = (Inr mid, d1)"
      and p: "persisted d1 = persisted d @ [item_written it]"
      by (auto simp: item_written_def)
    have "length (persisted d1) = length (persisted d @ [item_written it])"
      by (simp only: p)
    then have l: "length (memories d1) = length (memories d) + 1"
      by (simp add: persisted_def)
    from Cons.prems s have "save_items now its (n + 1) d1 = (e, n', d')" by simp
    from Cons.IH [OF this] l show ?thesis by linarith
  next
    case False
    from save_memory_rejected [OF False [unfolded item_accepted_def], of now d] Cons.prems
    show ?thesis by simp
  qed
qed

lemma save_items_accepted:
  assumes "\<forall>it \<in> set its. item_accepted it"
  shows "\<exists>d'. save_items now its n d = (None, n + length its, d') \<and>
           persisted d' = persisted d @ map item_written its \<and>
           length (versions d') = length (versions d) + length its"
  using assms
proof (induction its arbitrary: n d)
  case Nil
  then show ?case by simp
next
  case (Cons it its)
  then have a: "item_accepted it" and rest: "\<forall>it \<in> set its. item_accepted it" by simp_all
  from save_memory_accepted [OF a [unfolded item_accepted_def], of now d]
  obtain mid d1 where s: "save_memory now (i_memory_type it) (i_content it)
      (kw_session_id (i_kwargs it)) (kw_date (i_kwargs it)) (kw_importance (i_kwargs it))
      (kw_tags (i_kwargs it)) d = (Inr mid, d1)"
    and p: "persisted d1 = persisted d @ [item_written it]"
    and v: "length (versions d1) = length (versions d) + 1"
    by (auto simp: item_written_def)
  from Cons.IH [OF rest, of "n + 1" d1] obtain d' where
    "save_items now its (n + 1) d1 = (None, n + 1 + length its, d')"
    "persisted d' = persisted d1 @ map item_written its"
    "length (versions d') = length (versions d1) + length its"
    by blast
  with s p v show ?case by simp
qed

lemma force_flush_accepted:
  assumes "\<forall>it \<in> set (queue s). item_accepted it"
  shows "\<exists>s' d'. force_flush now s d = (length (queue s), s', d') \<and>
           queue s' = [] \<and> max_queue_size s' = max_queue_size s \<and>
           persisted d' = persisted d @ map item_written (queue s) \<and>
           length (versions d') = length (versions d) + length (queue s)"
proof (cases "queue s = []")
  case True
  then show ?thesis by (simp add: force_flush_def)
next
  case False
  from save_items_accepted [OF assms, of now 0 d] obtain d' where
    "save_items now (queue s) 0 d = (None, length (queue s), d')"
    "persisted d' = persisted d @ map item_written (queue s)"
    "length (versions d') = length (versions d) + length (queue s)"
    by auto
  with False show ?thesis by (simp add: force_flush_def Let_def)
qed

lemma force_flush_count:
  "force_flush now s d = (n, s', d') \<Longrightarrow> length (memories d') = length (memories d) + n"
proof (cases "queue s = []")
  case True
  assume "force_flush now s d = (n, s', d')"
  with True show ?thesis by (simp add: force_flush_def)
next
  case False
  assume f: "force_flush now s d = (n, s', d')"
  obtain e k d1 where si: "save_items now (queue s) 0 d = (e, k, d1)"
    by (cases "save_items now (queue s) 0 d") auto
  from save_items_count [OF si] have "length (memories d1) = length (memories d) + k" by simp
  with f False si show ?thesis
    by (cases e) (auto simp: force_flush_def Let_def)
qed

lemma queue_save_admits:
  "\<exists>s' d'. queue_save now mtype doc kw s d = (True, s', d') \<and> queue s' \<noteq> [] \<and>
     last (queue s') = \<lparr>i_memory_type = mtype, i_content = doc, i_kwargs = kw, i_timestamp = now\<rparr>"
  by (simp add: queue_save_def Let_def split: prod.splits)

lemma queue_save_full:
  assumes "max_queue_size s \<le> int (length (queue s))"
  shows "queue_save now mtype doc kw s d =
           (case force_flush now s d of
              (n, s1, d1) \<Rightarrow>
                (True,
                 s1\<lparr>queue := queue s1 @
                       [\<lparr>i_memory_type = mtype, i_content = doc, i_kwargs = kw, i_timestamp = now\<rparr>],
                    total_queues := total_queues s1 + 1\<rparr>,
                 d1))"
  using assms by (simp add: queue_save_def Let_def split: prod.splits)

lemma queue_save_accepted:
  assumes "\<forall>it \<in> set (queue s). item_accepted it" "accepted mtype doc kw"
  shows "\<exists>s' d'. queue_save now mtype doc kw s d = (True, s', d') \<and>
           (\<forall>it \<in> set (queue s'). item_accepted it) \<and>
           max_queue_size s' = max_queue_size s \<and>
           persisted d' @ map item_written (queue s')
             = persisted d @ map item_written (queue s) @ [written mtype doc kw] \<and>
           length (versions d') + length (queue s')
             = length (versions d) + length (queue s) + 1"
proof (cases "max_queue_size s \<le> int (length (queue s))")
  case True
  from force_flush_accepted [OF assms(1), of now d] obtain s1 d1 where
    f: "force_flush now s d = (length (queue s), s1, d1)" "queue s1 = []"
      "max_queue_size s1 = max_queue_size s"
      "persisted d1 = persisted d @ map item_written (queue s)"
      "length (versions d1) = length (versions d) + length (queue s)"
    by blast
  with True assms(2) show ?thesis
    by (simp add: queue_save_def Let_def item_written_def item_accepted_def)
next
  case False
  with assms show ?thesis
    by (simp add: queue_save_def Let_def item_written_def item_accepted_def)
qed

lemma queue_saves_accepted:
  assumes "\<forall>it \<in> set (queue s). item_accepted it"
    and "\<forall>q \<in> set qs. accepted (q_memory_type q) (q_content q) (q_kwargs q)"
  shows "\<exists>s' d'. queue_saves qs s d = (s', d') \<and>
           (\<forall>it \<in> set (queue s'). item_accepted it) \<and>
           persisted d' @ map item_written (queue s')
             = persisted d @ map item_written (queue s)
                 @ map (\<lambda>q. written (q_memory_type q) (q_content q) (q_kwargs q)) qs \<and>
           length (versions d') + length (queue s')
             = length (versions d) + length (queue s) + length qs"
  using assms
proof (induction qs arbitrary: s d)
  case Nil
  then show ?case by simp
next
  case (Cons q qs)
  then have a: "accepted (q_memory_type q) (q_content q) (q_kwargs q)"
    and rest: "\<forall>q \<in> set qs. accepted (q_memory_type q) (q_content q) (q_kwargs q)"
    by simp_all
  from queue_save_accepted [OF Cons.prems(1) a, of "q_now q" d] obtain s1 d1 where
    q: "queue_save (q_now q) (q_memory_type q) (q_content q) (q_kwargs q) s d = (True, s1, d1)"
    and acc: "\<forall>it \<in> set (queue s1). item_accepted it"
    and p: "persisted d1 @ map item_written (queue s1)
             = persisted d @ map item_written (queue s)
                 @ [written (q_memory_type q) (q_content q) (q_kwargs q)]"
    and v: "length (versions d1) + length (queue s1) = length (versions d) + length (queue s) + 1"
    by blast
  from Cons.IH [OF acc rest, of d1] obtain s' d' where
    "queue_saves qs s1 d1 = (s', d')"
    "\<forall>it \<in> set (queue s'). item_accepted it"
    "persisted d' @ map item_written (queue s')
       = persisted d1 @ map item_written (queue s1)
           @ map (\<lambda>q. written (q_memory_type q) (q_content q) (q_kwargs q)) qs"
    "length (versions d') + length (queue s') = length (versions d1) + length (queue s1) + length qs"
    by blast
  with q p v show ?case by simp
qed

text \<open>
  C6. Starting with an empty queue, K \<open>queue_save\<close> calls of writes the store accepts
  followed by one \<open>force_flush\<close> leave the memories table with exactly K more rows,
  which show the K writes in the order of the calls, and K more version rows; the
  queue is empty; \<open>force_flush\<close> returns the number of items it drained, which is the
  number of rows it added. A \<open>queue_save\<close> that finds the queue at its capacity is
  a \<open>force_flush\<close> followed by the enqueueing; and every \<open>queue_save\<close> returns
  \<open>True\<close> with its item at the end of the queue.
\<close>

theorem queue_then_flush:
  assumes "queue s = []"
    and "\<forall>q \<in> set qs. accepted (q_memory_type q) (q_content q) (q_kwargs q)"
  shows "(case queue_saves qs s d of
            (s1, d1) \<Rightarrow>
              (case force_flush now s1 d1 of
                 (n, s2, d2) \<Rightarrow>
                   persisted d2
                     = persisted d @ map (\<lambda>q. written (q_memory_type q) (q_content q) (q_kwargs q)) qs \<and>
                   length (memories d2) = length (memories d) + length qs \<and>
                   length (versions d2) = length (versions d) + length qs \<and>
                   queue s2 = [] \<and>
                   n = length (queue s1) \<and>
                   length (memories d2) = length (memories d1) + n)) \<and>
         (max_queue_size s0 \<le> int (length (queue s0)) \<longrightarrow>
            queue_save t mtype doc kw s0 d0 =
              (case force_flush t s0 d0 of
                 (n, s1, d1) \<Rightarrow>
                   (True,
                    s1\<lparr>queue := queue s1 @
                          [\<lparr>i_memory_type = mtype, i_content = doc, i_kwargs = kw,
                            i_timestamp = t\<rparr>],
                       total_queues := total_queues s1 + 1\<rparr>,
                    d1))) \<and>
         (case queue_save t mtype doc kw s0 d0 of
            (ok, s1, d1) \<Rightarrow>
              ok \<and> queue s1 \<noteq> [] \<and>
              last (queue s1)
                = \<lparr>i_memory_type = mtype, i_content = doc, i_kwargs = kw, i_timestamp = t\<rparr>)"
proof (intro conjI impI)
  have q0: "\<forall>it \<in> set (queue s). item_accepted it"
    using assms(1) by simp
  from queue_saves_accepted [OF q0 assms(2), of d] obtain s1 d1 where
    qs: "queue_saves qs s d = (s1, d1)"
    and acc: "\<forall>it \<in> set (queue s1). item_accepted it"
    and p: "persisted d1 @ map item_written (queue s1)
              = persisted d @ map item_written (queue s)
                  @ map (\<lambda>q. written (q_memory_type q) (q_content q) (q_kwargs q)) qs"
    and v: "length (versions d1) + length (queue s1)
              = length (versions d) + length (queue s) + length qs"
    by blast
  from force_flush_accepted [OF acc, of now d1] obtain s2 d2 where
    f: "force_flush now s1 d1 = (length (queue s1), s2, d2)"
    and e: "queue s2 = []"
    and p2: "persisted d2 = persisted d1 @ map item_written (queue s1)"
    and v2: "length (versions d2) = length (versions d1) + length (queue s1)"
    by blast
  have pp: "persisted d2
              = persisted d @ map (\<lambda>q. written (q_memory_type q) (q_content q) (q_kwargs q)) qs"
    using p p2 assms(1) by simp
  have "length (persisted d2)
          = length (persisted d @ map (\<lambda>q. written (q_memory_type q) (q_content q) (q_kwargs q)) qs)"
    by (simp only: pp)
  then have lm: "length (memories d2) = length (memories d) + length qs"
    by (simp add: persisted_def)
  have lv: "length (versions d2) = length (versions d) + length qs"
    using v v2 assms(1) by simp
  from force_flush_count [OF f] have lc: "length (memories d2) = length (memories d1) + length (queue s1)" .
  show "case queue_saves qs s d of
          (s1, d1) \<Rightarrow>
            (case force_flush now s1 d1 of
               (n, s2, d2) \<Rightarrow>
                 persisted d2
                   = persisted d @ map (\<lambda>q. written (q_memory_type q) (q_content q) (q_kwargs q)) qs \<and>
                 length (memories d2) = length (memories d) + length qs \<and>
                 length (versions d2) = length (versions d) + length qs \<and>
                 queue s2 = [] \<and>
                 n = length (queue s1) \<and>
                 length (memories d2) = length (memories d1) + n)"
    using qs f e pp lm lv lc by simp
next
  assume "max_queue_size s0 \<le> int (length (queue s0))"
  then show "queue_save t mtype doc kw s0 d0 =
              (case force_flush t s0 d0 of
                 (n, s1, d1) \<Rightarrow>
                   (True,
                    s1\<lparr>queue := queue s1 @
                          [\<lparr>i_memory_type = mtype, i_content = doc, i_kwargs = kw,
                            i_timestamp = t\<rparr>],
                       total_queues := total_queues s1 + 1\<rparr>,
                    d1))"
    by (rule queue_save_full)
next
  from queue_save_admits [of t mtype doc kw s0 d0]
  show "case queue_save t mtype doc kw s0 d0 of
          (ok, s1, d1) \<Rightarrow>
            ok \<and> queue s1 \<noteq> [] \<and>
            last (queue s1)
              = \<lparr>i_memory_type = mtype, i_content = doc, i_kwargs = kw, i_timestamp = t\<rparr>"
    by auto
qed

theorem queue_then_flush_witness:
  "case queue_saves
           [\<lparr>q_now = 1, q_memory_type = ''daily'', q_content = [(''n'', JInt 1)],
             q_kwargs = \<lparr>kw_session_id = None, kw_date = None, kw_importance = 0,
                          kw_tags = []\<rparr>\<rparr>,
            \<lparr>q_now = 2, q_memory_type = ''session'', q_content = [(''n'', JInt 2)],
             q_kwargs = \<lparr>kw_session_id = Some ''s'', kw_date = None, kw_importance = 10,
                          kw_tags = []\<rparr>\<rparr>,
            \<lparr>q_now = 3, q_memory_type = ''longterm'', q_content = [(''n'', JInt 3)],
             q_kwargs = \<lparr>kw_session_id = None, kw_date = None, kw_importance = 5,
                          kw_tags = [''t'']\<rparr>\<rparr>]
           \<lparr>max_queue_size = 2, auto_flush = False, queue = [], running = False,
            last_flush = None, flush_count = 0, error_count = 0, total_saves = 0,
            total_queues = 0\<rparr>
           create_tables of
      (s1, d1) \<Rightarrow>
        length (memories d1) = 2 \<and> length (queue s1) = 1 \<and>
        (case force_flush 4 s1 d1 of
           (n, s2, d2) \<Rightarrow>
             n = 1 \<and> queue s2 = [] \<and>
             map m_content (memories d2)
               = [[(''n'', JInt 1)], [(''n'', JInt 2)], [(''n'', JInt 3)]] \<and>
             map m_id (memories d2) = [1, 2, 3] \<and>
             length (versions d2) = 3)"
  using queue_then_flush
    [where s = "\<lparr>max_queue_size = 2, auto_flush = False, queue = [], running = False,
                  last_flush = None, flush_count = 0, error_count = 0, total_saves = 0,
                  total_queues = 0\<rparr>"
       and d = create_tables and now = 4
       and qs = "[\<lparr>q_now = 1, q_memory_type = ''daily'', q_content = [(''n'', JInt 1)],
                  q_kwargs = \<lparr>kw_session_id = None, kw_date = None, kw_importance = 0,
                               kw_tags = []\<rparr>\<rparr>,
                 \<lparr>q_now = 2, q_memory_type = ''session'', q_content = [(''n'', JInt 2)],
                  q_kwargs = \<lparr>kw_session_id = Some ''s'', kw_date = None, kw_importance = 10,
                               kw_tags = []\<rparr>\<rparr>,
                 \<lparr>q_now = 3, q_memory_type = ''longterm'', q_content = [(''n'', JInt 3)],
                  q_kwargs = \<lparr>kw_session_id = None, kw_date = None, kw_importance = 5,
                               kw_tags = [''t'']\<rparr>\<rparr>]"]
  by (simp add: queue_save_def force_flush_def save_memory_def create_tables_def Let_def
      accepted_def)

section \<open>Properties of backup and restore\<close>

subsection \<open>Restoring\<close>

lemma connect_fields:
  "live (connect w) = live w" "db_path (connect w) = db_path w" "files (connect w) = files w"
  "undeletable (connect w) = undeletable w" "conn (connect w)"
  "read_file (connect w) p = read_file w p"
  by (simp_all add: connect_def read_file_def)

lemma close_fields:
  "live (close w) = live w" "db_path (close w) = db_path w" "files (close w) = files w"
  "undeletable (close w) = undeletable w" "\<not> conn (close w)"
  "read_file (close w) p = read_file w p"
  by (simp_all add: close_def read_file_def)

lemma write_db_file:
  "live (write_file (db_path w) f w) = f" "files (write_file (db_path w) f w) = files w"
  "conn (write_file (db_path w) f w) = conn w"
  by (simp_all add: write_file_def)

lemma restore_backup_unfold:
  assumes "filter (\<lambda>b. b_id b = bid) (backups (live w)) = row # rest"
  shows "MemoryDB_restore_backup pf bid w =
           (case read_file w (file_path row) of
              None \<Rightarrow> (Inr False, connect w)
            | Some f \<Rightarrow>
                if Some (md5 pf f) \<noteq> checksum row then (Inr False, connect w)
                else if file_path row = db_path w then (Inl SameFileError, close (connect w))
                else (Inr True, connect (write_file (db_path w) f (close (connect w)))))"
  using assms
  by (simp add: MemoryDB_restore_backup_def Let_def connect_fields close_fields copy2_def
      split: option.splits)

lemma restore_backup_cases:
  "MemoryDB_restore_backup pf bid w = (Inr False, connect w) \<or>
   (\<exists>row rest f.
      filter (\<lambda>b. b_id b = bid) (backups (live w)) = row # rest \<and>
      read_file w (file_path row) = Some f \<and>
      checksum row = Some (md5 pf f) \<and>
      MemoryDB_restore_backup pf bid w =
        (if file_path row = db_path w then (Inl SameFileError, close (connect w))
         else (Inr True, connect (write_file (db_path w) f (close (connect w))))))"
proof (cases "filter (\<lambda>b. b_id b = bid) (backups (live w))")
  case Nil
  then show ?thesis by (simp add: MemoryDB_restore_backup_def connect_fields)
next
  case (Cons row rest)
  note u = restore_backup_unfold [OF Cons, of pf]
  show ?thesis
  proof (cases "read_file w (file_path row)")
    case None
    with u show ?thesis by simp
  next
    case (Some f)
    show ?thesis
    proof (cases "checksum row = Some (md5 pf f)")
      case True
      with u Cons Some show ?thesis by auto
    next
      case False
      with u Some show ?thesis by auto
    qed
  qed
qed

lemma sample_digests:
  "sample_digest create_tables = []"
  by (simp add: sample_digest_def create_tables_def)

lemma catalog_world_fields:
  "filter (\<lambda>b. b_id b = 1) (backups (live (catalog_world recorded file)))
     = [\<lparr>b_id = 1, backup_type = ''manual'', file_path = ''data/backups/a.db'',
         size_bytes = Some 0, checksum = recorded, status = ''completed'',
         description = None, b_created_at = 1\<rparr>]"
  "read_file (catalog_world recorded file) ''data/backups/a.db'' = file"
  "db_path (catalog_world recorded file) = ''data/memory.db''"
  "conn (catalog_world recorded file)"
  by (simp_all add: catalog_world_def sample_world_def read_file_def)

lemma sample_md5: "md5 sample_platform create_tables = []"
  by (simp add: sample_platform_def sample_digests)

text \<open>
  C8, as the code has it, for \<open>MemoryDB.restore_backup\<close>. When the catalog has no row
  for the id, or has one and the backup file is missing, or has one and the
  recomputed checksum of the file differs from the recorded one, the call returns
  \<open>False\<close> (the same value in the three cases, nothing is raised) and only opens the
  connection: the database file and all other files are as before. When the file is
  there and its checksum is the recorded one, the call closes the connection and
  copies the file over the database file; it then opens the connection again and
  returns \<open>True\<close>, except when the recorded path is the path of the database file
  itself, where the copy raises \<open>SameFileError\<close> and the connection stays closed.
  A result of \<open>True\<close>, a changed database file or a connection left closed occur
  only after a successful verification; no other file is touched.
\<close>

theorem restore_backup_checked:
  "(filter (\<lambda>b. b_id b = bid) (backups (live w)) = [] \<longrightarrow>
      MemoryDB_restore_backup pf bid w = (Inr False, connect w)) \<and>
   (\<forall>row rest.
      filter (\<lambda>b. b_id b = bid) (backups (live w)) = row # rest \<and>
      (case read_file w (file_path row) of
         None \<Rightarrow> True
       | Some f \<Rightarrow> checksum row \<noteq> Some (md5 pf f)) \<longrightarrow>
      MemoryDB_restore_backup pf bid w = (Inr False, connect w)) \<and>
   (\<forall>row rest f.
      filter (\<lambda>b. b_id b = bid) (backups (live w)) = row # rest \<and>
      read_file w (file_path row) = Some f \<and> checksum row = Some (md5 pf f) \<and>
      file_path row \<noteq> db_path w \<longrightarrow>
      MemoryDB_restore_backup pf bid w
        = (Inr True, connect (write_file (db_path w) f (close (connect w)))) \<and>
      live (snd (MemoryDB_restore_backup pf bid w)) = f \<and>
      conn (snd (MemoryDB_restore_backup pf bid w))) \<and>
   (\<forall>row rest f.
      filter (\<lambda>b. b_id b = bid) (backups (live w)) = row # rest \<and>
      read_file w (file_path row) = Some f \<and> checksum row = Some (md5 pf f) \<and>
      file_path row = db_path w \<longrightarrow>
      MemoryDB_restore_backup pf bid w = (Inl SameFileError, close (connect w))) \<and>
   (fst (MemoryDB_restore_backup pf bid w) = Inr True \<or>
    live (snd (MemoryDB_restore_backup pf bid w)) \<noteq> live w \<or>
    \<not> conn (snd (MemoryDB_restore_backup pf bid w)) \<longrightarrow>
      (\<exists>row rest f.
         filter (\<lambda>b. b_id b = bid) (backups (live w)) = row # rest \<and>
         read_file w (file_path row) = Some f \<and> checksum row = Some (md5 pf f))) \<and>
   files (snd (MemoryDB_restore_backup pf bid w)) = files w \<and>
   live (connect w) = live w \<and> files (connect w) = files w \<and>
   live (close (connect w)) = live w"
proof -
  have none: "MemoryDB_restore_backup pf bid w = (Inr False, connect w)"
    if "filter (\<lambda>b. b_id b = bid) (backups (live w)) = []"
    using that by (simp add: MemoryDB_restore_backup_def connect_fields)
  have bad: "MemoryDB_restore_backup pf bid w = (Inr False, connect w)"
    if "filter (\<lambda>b. b_id b = bid) (backups (live w)) = row # rest \<and>
        (case read_file w (file_path row) of
           None \<Rightarrow> True
         | Some f \<Rightarrow> checksum row \<noteq> Some (md5 pf f))" for row rest
    using that by (auto simp: restore_backup_unfold split: option.splits)
  have good: "MemoryDB_restore_backup pf bid w
        = (Inr True, connect (write_file (db_path w) f (close (connect w)))) \<and>
      live (snd (MemoryDB_restore_backup pf bid w)) = f \<and>
      conn (snd (MemoryDB_restore_backup pf bid w))"
    if a: "filter (\<lambda>b. b_id b = bid) (backups (live w)) = row # rest \<and>
        read_file w (file_path row) = Some f \<and> checksum row = Some (md5 pf f) \<and>
        file_path row \<noteq> db_path w" for row rest f
  proof -
    from a have r: "MemoryDB_restore_backup pf bid w
        = (Inr True, connect (write_file (db_path w) f (close (connect w))))"
      by (simp add: restore_backup_unfold)
    from r have "live (snd (MemoryDB_restore_backup pf bid w)) = f"
      using write_db_file [of "close (connect w)" f]
      by (simp add: connect_fields close_fields)
    moreover from r have "conn (snd (MemoryDB_restore_backup pf bid w))"
      by (simp add: connect_fields)
    ultimately show ?thesis using r by simp
  qed
  have same: "MemoryDB_restore_backup pf bid w = (Inl SameFileError, close (connect w))"
    if "filter (\<lambda>b. b_id b = bid) (backups (live w)) = row # rest \<and>
        read_file w (file_path row) = Some f \<and> checksum row = Some (md5 pf f) \<and>
        file_path row = db_path w" for row rest f
  proof -
    from that have f: "filter (\<lambda>b. b_id b = bid) (backups (live w)) = row # rest"
      and c: "checksum row = Some (md5 pf f)" and p: "file_path row = db_path w"
      and r: "read_file w (db_path w) = Some f"
      by auto
    show ?thesis
      by (simp add: restore_backup_unfold [OF f] r c p)
  qed
  have only: "\<exists>row rest f.
         filter (\<lambda>b. b_id b = bid) (backups (live w)) = row # rest \<and>
         read_file w (file_path row) = Some f \<and> checksum row = Some (md5 pf f)"
    if a: "fst (MemoryDB_restore_backup pf bid w) = Inr True \<or>
        live (snd (MemoryDB_restore_backup pf bid w)) \<noteq> live w \<or>
        \<not> conn (snd (MemoryDB_restore_backup pf bid w))"
    using restore_backup_cases [of pf bid w]
  proof
    assume "MemoryDB_restore_backup pf bid w = (Inr False, connect w)"
    with a show ?thesis by (simp add: connect_fields)
  next
    assume "\<exists>row rest f.
      filter (\<lambda>b. b_id b = bid) (backups (live w)) = row # rest \<and>
      read_file w (file_path row) = Some f \<and>
      checksum row = Some (md5 pf f) \<and>
      MemoryDB_restore_backup pf bid w =
        (if file_path row = db_path w then (Inl SameFileError, close (connect w))
         else (Inr True, connect (write_file (db_path w) f (close (connect w)))))"
    then show ?thesis by blast
  qed
  have fs: "files (snd (MemoryDB_restore_backup pf bid w)) = files w"
    using restore_backup_cases [of pf bid w] write_db_file(2) [of "close (connect w)"]
    by (auto simp: connect_fields close_fields split: if_splits)
  have rest: "live (connect w) = live w \<and> files (connect w) = files w \<and>
      live (close (connect w)) = live w"
    by (simp add: connect_fields close_fields)
  from none bad good same only fs rest show ?thesis by blast
qed

theorem restore_backup_checked_witness:
  "MemoryDB_restore_backup sample_platform 1 (catalog_world (Some []) (Some create_tables))
     = (Inr True,
        connect (write_file ''data/memory.db'' create_tables
                   (close (connect (catalog_world (Some []) (Some create_tables)))))) \<and>
   live (snd (MemoryDB_restore_backup sample_platform 1
                (catalog_world (Some []) (Some create_tables)))) = create_tables \<and>
   MemoryDB_restore_backup sample_platform 1 (catalog_world (Some ''5'') (Some create_tables))
     = (Inr False, connect (catalog_world (Some ''5'') (Some create_tables))) \<and>
   MemoryDB_restore_backup sample_platform 2 (catalog_world (Some ''5'') (Some create_tables))
     = (Inr False, connect (catalog_world (Some ''5'') (Some create_tables)))"
proof -
  let ?row = "\<lambda>c. \<lparr>b_id = 1, backup_type = ''manual'', file_path = ''data/backups/a.db'',
         size_bytes = Some 0, checksum = c, status = ''completed'',
         description = None, b_created_at = 1\<rparr>"
  note t0 = restore_backup_checked
              [of 1 "catalog_world (Some []) (Some create_tables)" sample_platform]
  note t5 = restore_backup_checked
              [of 1 "catalog_world (Some ''5'') (Some create_tables)" sample_platform]
  note t2 = restore_backup_checked
              [of 2 "catalog_world (Some ''5'') (Some create_tables)" sample_platform]
  have ok: "MemoryDB_restore_backup sample_platform 1 (catalog_world (Some []) (Some create_tables))
     = (Inr True,
        connect (write_file (db_path (catalog_world (Some []) (Some create_tables))) create_tables
                   (close (connect (catalog_world (Some []) (Some create_tables)))))) \<and>
     live (snd (MemoryDB_restore_backup sample_platform 1
                (catalog_world (Some []) (Some create_tables)))) = create_tables \<and>
     conn (snd (MemoryDB_restore_backup sample_platform 1
                (catalog_world (Some []) (Some create_tables))))"
    by (rule t0 [THEN conjunct2, THEN conjunct2, THEN conjunct1, rule_format,
                 of "?row (Some [])" "[]"])
       (simp add: catalog_world_fields sample_md5)
  have bad: "MemoryDB_restore_backup sample_platform 1 (catalog_world (Some ''5'') (Some create_tables))
     = (Inr False, connect (catalog_world (Some ''5'') (Some create_tables)))"
    by (rule t5 [THEN conjunct2, THEN conjunct1, rule_format, of "?row (Some ''5'')" "[]"])
       (simp add: catalog_world_fields sample_md5)
  have none: "MemoryDB_restore_backup sample_platform 2 (catalog_world (Some ''5'') (Some create_tables))
     = (Inr False, connect (catalog_world (Some ''5'') (Some create_tables)))"
    by (rule t2 [THEN conjunct1, rule_format])
       (simp add: catalog_world_def sample_world_def)
  from ok have o1: "MemoryDB_restore_backup sample_platform 1
        (catalog_world (Some []) (Some create_tables))
     = (Inr True,
        connect (write_file ''data/memory.db'' create_tables
                   (close (connect (catalog_world (Some []) (Some create_tables))))))"
    by (simp only: catalog_world_fields(3))
  from ok have o2: "live (snd (MemoryDB_restore_backup sample_platform 1
                (catalog_world (Some []) (Some create_tables)))) = create_tables"
    by (rule conjunct1 [OF conjunct2])
  show ?thesis by (rule conjI [OF o1 conjI [OF o2 conjI [OF bad none]]])
qed

text \<open>
  The claim as stated asks for a verification error that differs from the report of
  a missing file. With a recorded checksum that the file does not have,
  \<open>MemoryDB.restore_backup\<close> returns \<open>False\<close>, as it does when the file is missing;
  \<open>BackupService.restore_backup\<close> raises the same \<open>ValueError\<close> in both cases.
\<close>

theorem restore_backup_counterexample:
  "MemoryDB_restore_backup sample_platform 1 (catalog_world (Some ''5'') (Some create_tables))
     = (Inr False, connect (catalog_world (Some ''5'') (Some create_tables))) \<and>
   MemoryDB_restore_backup sample_platform 1 (catalog_world (Some ''5'') None)
     = (Inr False, connect (catalog_world (Some ''5'') None)) \<and>
   restore_backup sample_platform 1 (catalog_world (Some ''5'') (Some create_tables))
     = (Inl ValueError, catalog_world (Some ''5'') (Some create_tables)) \<and>
   restore_backup sample_platform 1 (catalog_world (Some ''5'') None)
     = (Inl ValueError, catalog_world (Some ''5'') None)"
proof -
  have m: "\<And>file. MemoryDB_restore_backup sample_platform 1 (catalog_world (Some ''5'') file)
     = (case file of None \<Rightarrow> (Inr False, connect (catalog_world (Some ''5'') file))
        | Some f \<Rightarrow> if Some (md5 sample_platform f) \<noteq> Some ''5''
                    then (Inr False, connect (catalog_world (Some ''5'') file))
                    else (Inr True, connect (write_file ''data/memory.db'' f
                                   (close (connect (catalog_world (Some ''5'') file))))))"
    by (simp add: restore_backup_unfold [OF catalog_world_fields(1)] catalog_world_fields
        split: option.splits)
  have b: "\<And>file. restore_backup sample_platform 1 (catalog_world (Some ''5'') file)
     = (Inl ValueError, catalog_world (Some ''5'') file)"
    by (simp add: restore_backup_def catalog_world_fields)
  show ?thesis by (simp add: m b sample_md5)
qed

text \<open>
  \<open>BackupService.restore_backup\<close> never restores: whatever the catalog and the files
  hold, the world is left as it was.
\<close>

lemma restore_backup_slip:
  "snd (restore_backup pf bid w) = w \<and>
   fst (restore_backup pf bid w) \<in> {Inl AttributeError, Inl ValueError, Inr False}"
proof -
  have neq: "\<And>c. [c] \<noteq> ''completed''" by simp
  show ?thesis
    unfolding restore_backup_def Let_def
    by (simp add: neq split: list.splits)
qed

subsection \<open>Creating a backup under the lock\<close>

lemma insert_backup_error:
  "insert_backup row w = Inl e \<Longrightarrow> e \<in> {AttributeError, OperationalError, IntegrityError}"
  by (auto simp: insert_backup_def Let_def split: if_splits)

lemma copy2_error:
  "copy2 src dst w = Inl e \<Longrightarrow> e \<in> {SameFileError, FileNotFoundError}"
  by (auto simp: copy2_def split: if_splits option.splits)

lemma create_backup_no_timeout:
  "fst (create_backup pf ts now bdir btype descr w) \<noteq> Inl TimeoutError"
  by (auto simp: create_backup_def Let_def split: sum.splits option.splits prod.splits
      dest: insert_backup_error copy2_error)

lemma fresh_lock_acquire:
  "lock_acquire tmax timeout (length ls) (ls @ [False])
     = (case acquire_check tmax timeout of
          Some e \<Rightarrow> Some (Inl e)
        | None \<Rightarrow> Some (Inr (True, ls @ [True])))"
  by (simp add: lock_acquire_def split: option.splits)

text \<open>
  C10, as the code has it. Whatever locks exist and are held in the process,
  \<open>create_backup_with_lock\<close> returns. For a timeout that passes the argument check
  of \<open>Lock.acquire\<close> it returns the result and the world of \<open>create_backup\<close>; for a
  timeout that does not, it raises the exception of the check and leaves the world
  as it was, \<open>create_backup\<close> not being run. In both cases the existing locks are
  untouched and its own new lock is free afterwards. \<open>TimeoutError\<close> is not among
  the results of \<open>create_backup\<close>, nor of the check.
\<close>

theorem create_backup_with_lock_equiv:
  "create_backup_with_lock pf ts now bdir btype descr timeout w ls
     = (case acquire_check (timeout_max pf) timeout of
          None \<Rightarrow>
            Some (fst (create_backup pf ts now bdir btype descr w),
                  snd (create_backup pf ts now bdir btype descr w),
                  ls @ [False])
        | Some e \<Rightarrow> Some (Inl e, w, ls @ [False])) \<and>
   fst (create_backup pf ts now bdir btype descr w) \<noteq> Inl TimeoutError \<and>
   acquire_check (timeout_max pf) timeout \<noteq> Some TimeoutError \<and>
   acquire_check (timeout_max pf) timeout
     = (if timeout < - (2 ^ 63) \<or> 2 ^ 63 \<le> timeout then Some OverflowError
        else if timeout < 0 \<and> timeout \<noteq> - (10 ^ 9) then Some ValueError
        else if timeout \<noteq> - (10 ^ 9) \<and> timeout_max pf < (timeout + 999) div 1000
        then Some OverflowError
        else None)"
proof (intro conjI)
  show "create_backup_with_lock pf ts now bdir btype descr timeout w ls
     = (case acquire_check (timeout_max pf) timeout of
          None \<Rightarrow>
            Some (fst (create_backup pf ts now bdir btype descr w),
                  snd (create_backup pf ts now bdir btype descr w),
                  ls @ [False])
        | Some e \<Rightarrow> Some (Inl e, w, ls @ [False]))"
    by (simp add: create_backup_with_lock_def new_lock_def lock_release_def fresh_lock_acquire
        split: prod.splits option.splits)
  show "fst (create_backup pf ts now bdir btype descr w) \<noteq> Inl TimeoutError"
    by (rule create_backup_no_timeout)
  show "acquire_check (timeout_max pf) timeout \<noteq> Some TimeoutError"
    by (simp add: acquire_check_def)
  show "acquire_check (timeout_max pf) timeout
     = (if timeout < - (2 ^ 63) \<or> 2 ^ 63 \<le> timeout then Some OverflowError
        else if timeout < 0 \<and> timeout \<noteq> - (10 ^ 9) then Some ValueError
        else if timeout \<noteq> - (10 ^ 9) \<and> timeout_max pf < (timeout + 999) div 1000
        then Some OverflowError
        else None)"
    by (simp only: acquire_check_def)
qed

theorem create_backup_with_lock_equiv_witness:
  "create_backup_with_lock sample_platform ''2026-01-01_00-00-00'' 7 ''data/backups'' ''manual''
       (Some ''d'') 30000000000 sample_world [True, False]
     = Some (fst (create_backup sample_platform ''2026-01-01_00-00-00'' 7 ''data/backups''
                    ''manual'' (Some ''d'') sample_world),
             snd (create_backup sample_platform ''2026-01-01_00-00-00'' 7 ''data/backups''
                    ''manual'' (Some ''d'') sample_world),
             [True, False, False]) \<and>
   acquire_check (timeout_max sample_platform) 30000000000 = None"
  using create_backup_with_lock_equiv
    [of sample_platform "''2026-01-01_00-00-00''" 7 "''data/backups''" "''manual''" "Some ''d''"
       30000000000 sample_world "[True, False]"]
  by (simp add: sample_platform_def)

text \<open>
  The claim as stated covers every timeout. With a timeout of -2 seconds the call
  raises \<open>ValueError\<close> and leaves the world as it is, where \<open>create_backup\<close> alone
  copies the database file to the backup path before its \<open>INSERT\<close> fails on the
  table of \<open>create_tables\<close>.
\<close>

theorem create_backup_with_lock_counterexample:
  "create_backup_with_lock sample_platform ''2026-01-01_00-00-00'' 7 ''data/backups'' ''manual''
       None (- 2000000000) sample_world []
     = Some (Inl ValueError, sample_world, [False]) \<and>
   fst (create_backup sample_platform ''2026-01-01_00-00-00'' 7 ''data/backups'' ''manual''
          None sample_world) = Inl OperationalError \<and>
   files (snd (create_backup sample_platform ''2026-01-01_00-00-00'' 7 ''data/backups''
                 ''manual'' None sample_world))
     ''data/backups/backup_2026-01-01_00-00-00.db'' = Some create_tables \<and>
   files sample_world ''data/backups/backup_2026-01-01_00-00-00.db'' = None"
  by (simp add: create_backup_with_lock_def new_lock_def lock_acquire_def acquire_check_def
      sample_platform_def sample_world_def create_backup_def copy2_def read_file_def
      write_file_def path_join_def insert_backup_def record_failure_def create_tables_def Let_def)

subsection \<open>Retention\<close>

text \<open>
  In a list sorted by strictly falling key, the elements with a key above that of
  position \<open>i\<close> are the first \<open>i\<close> elements.
\<close>

lemma desc_filter_take:
  assumes "sorted_wrt (\<lambda>a c. key c < key a) ys" "i < length ys"
  shows "filter (\<lambda>c. (key (ys ! i) :: 'k :: linorder) < key c) ys = take i ys"
  using assms
proof (induction ys arbitrary: i)
  case Nil
  then show ?case by simp
next
  case (Cons y ys)
  show ?case
  proof (cases i)
    case 0
    with Cons.prems have "\<forall>c \<in> set ys. \<not> key y < key c" by auto
    with 0 show ?thesis by (simp add: filter_empty_conv)
  next
    case (Suc j)
    with Cons.prems have j: "j < length ys" and s: "sorted_wrt (\<lambda>a c. key c < key a) ys"
      and gt: "key (ys ! j) < key y"
      by auto
    from Cons.IH [OF s j] Suc gt show ?thesis by simp
  qed
qed

lemma distinct_map_sort_key:
  assumes "distinct (map key xs)"
  shows "distinct (map key (sort_key key xs))"
proof -
  have "card (set (map key (sort_key key xs))) = card (set (map key xs))"
    by simp
  also have "\<dots> = length (map key (sort_key key xs))"
    using distinct_card [OF assms] by simp
  finally show ?thesis by (rule card_distinct)
qed

lemma desc_sorted:
  assumes "distinct (map key xs)"
  shows "sorted_wrt (\<lambda>a c. (key c :: 'k :: linorder) < key a) (rev (sort_key key xs))"
proof -
  have "sorted_wrt (<) (map key (sort_key key xs))"
    using distinct_map_sort_key [OF assms] by (simp add: strict_sorted_iff)
  then show ?thesis
    by (simp add: sorted_wrt_rev sorted_wrt_map)
qed

lemma nth_in_take:
  assumes "distinct ys" "i < length ys"
  shows "ys ! i \<in> set (take k ys) \<longleftrightarrow> i < k"
proof
  assume "ys ! i \<in> set (take k ys)"
  then obtain j where j: "j < length (take k ys)" "take k ys ! j = ys ! i"
    by (auto simp: in_set_conv_nth)
  then have "ys ! j = ys ! i" "j < length ys" "j < k" by simp_all
  with assms have "j = i" by (simp add: nth_eq_iff_index_eq)
  with \<open>j < k\<close> show "i < k" by simp
next
  assume "i < k"
  with assms(2) show "ys ! i \<in> set (take k ys)"
    by (auto simp: in_set_conv_nth intro!: exI [of _ i])
qed

lemma recent_iff:
  assumes d: "distinct (map key xs)" and b: "b \<in> set xs"
  shows "b \<in> set (take k (rev (sort_key key xs)))
           \<longleftrightarrow> length (filter (\<lambda>c. (key b :: 'k :: linorder) < key c) xs) < k"
proof -
  let ?ys = "rev (sort_key key xs)"
  have dx: "distinct xs" using d by (simp add: distinct_map)
  have dy: "distinct ?ys" using dx by simp
  have sy: "set ?ys = set xs" by simp
  from b obtain i where i: "i < length ?ys" "?ys ! i = b"
    using sy by (metis in_set_conv_nth)
  have "filter (\<lambda>c. key (?ys ! i) < key c) ?ys = take i ?ys"
    by (rule desc_filter_take [OF desc_sorted [OF d] i(1)])
  then have "length (filter (\<lambda>c. key b < key c) ?ys) = i"
    using i by simp
  moreover have "length (filter (\<lambda>c. key b < key c) ?ys) = length (filter (\<lambda>c. key b < key c) xs)"
    using dx dy sy by (simp only: distinct_length_filter)
  ultimately have n: "length (filter (\<lambda>c. key b < key c) xs) = i" by simp
  from nth_in_take [OF dy i(1), of k] i(2) n show ?thesis by simp
qed

text \<open>The key of the descending order, and the rows that come before a row in it.\<close>

lemma rank_key_less:
  "((b_created_at b, - b_id b) < (b_created_at c, - b_id c))
     = (b_created_at b < b_created_at c \<or> b_created_at c = b_created_at b \<and> b_id c < b_id b)"
  by auto

lemma ahead_scoped:
  "ahead btype d b
     = length (filter (\<lambda>c. (b_created_at b, - b_id b) < (b_created_at c, - b_id c))
                 (filter (in_scope btype) (backups d)))"
  by (simp add: ahead_def rank_key_less del: less_prod_simp)

lemma distinct_rank_keys:
  assumes "distinct (map b_id xs)"
  shows "distinct (map (\<lambda>b. (b_created_at b, - b_id b)) xs)"
  using assms by (auto simp: distinct_map inj_on_def)

lemma kept_iff:
  assumes ids: "distinct (map b_id (backups d))"
    and b: "b \<in> set (backups d)" "in_scope btype b"
  shows "b_id b \<in> set (kept_ids k btype d) \<longleftrightarrow> k < 0 \<or> ahead btype d b < nat k"
proof (cases "k < 0")
  case True
  with b show ?thesis
    by (auto simp: kept_ids_def limit_def order_by_created_at_desc_def)
next
  case False
  let ?xs = "filter (in_scope btype) (backups d)"
  let ?ys = "order_by_created_at_desc ?xs"
  have inj: "inj_on b_id (set (backups d))"
    using ids by (simp add: distinct_map)
  have keys: "distinct (map (\<lambda>b. (b_created_at b, - b_id b)) ?xs)"
    using ids by (intro distinct_rank_keys) (simp add: distinct_map_filter)
  have sub: "set (take (nat k) ?ys) \<subseteq> set (backups d)"
    using set_take_subset [of "nat k" ?ys] by (auto simp: order_by_created_at_desc_def)
  have "b_id b \<in> set (kept_ids k btype d) \<longleftrightarrow> b_id b \<in> b_id ` set (take (nat k) ?ys)"
    using False by (simp add: kept_ids_def limit_def)
  also have "\<dots> \<longleftrightarrow> b \<in> set (take (nat k) ?ys)"
    using inj sub b(1) by (auto dest: inj_onD)
  also have "\<dots> \<longleftrightarrow> ahead btype d b < nat k"
    unfolding ahead_scoped order_by_created_at_desc_def
    using b by (intro recent_iff [OF keys]) simp
  finally show ?thesis using False by simp
qed

lemma to_delete_eq:
  assumes "distinct (map b_id (backups d))"
  shows "to_delete k btype d
           = order_by_created_at_asc
               (filter (\<lambda>b. in_scope btype b \<and> 0 \<le> k \<and> nat k \<le> ahead btype d b) (backups d))"
proof -
  have "filter (\<lambda>b. in_scope btype b \<and> b_id b \<notin> set (kept_ids k btype d)) (backups d)
          = filter (\<lambda>b. in_scope btype b \<and> 0 \<le> k \<and> nat k \<le> ahead btype d b) (backups d)"
    using kept_iff [OF assms] by (intro filter_cong) (auto simp: not_less)
  then show ?thesis by (simp add: to_delete_def)
qed

lemma delete_backups_step:
  "delete_backups (b # bs) n w =
     (if stuck w b then delete_backups bs n w
      else delete_backups bs (n + 1)
             (w\<lparr>files := (files w)(file_path b := None),
                live := (live w)\<lparr>backups := filter (\<lambda>r. b_id r \<noteq> b_id b) (backups (live w))\<rparr>\<rparr>))"
proof (cases "path_exists w (file_path b)")
  case True
  then show ?thesis by (simp add: stuck_def unlink_def)
next
  case False
  then have "files w (file_path b) = None"
    by (simp add: path_exists_def read_file_def split: if_splits)
  then have "(files w)(file_path b := None) = files w"
    by (simp add: fun_upd_idem)
  with False show ?thesis by (simp add: stuck_def)
qed

lemma stuck_after_step:
  assumes "\<not> stuck w b"
  shows "stuck (w\<lparr>files := (files w)(file_path b := None),
                   live := (live w)\<lparr>backups := bs'\<rparr>\<rparr>) c = stuck w c"
proof (cases "file_path c = file_path b")
  case True
  show ?thesis
  proof (cases "file_path b = db_path w")
    case db: True
    with True show ?thesis by (simp add: stuck_def path_exists_def read_file_def)
  next
    case False
    with True assms show ?thesis
      by (auto simp: stuck_def path_exists_def read_file_def)
  qed
next
  case False
  then show ?thesis by (simp add: stuck_def path_exists_def read_file_def)
qed

lemma delete_backups_result:
  "delete_backups bs n w = (n', w') \<Longrightarrow>
     n' = n + length (filter (\<lambda>b. \<not> stuck w b) bs) \<and>
     backups (live w')
       = filter (\<lambda>r. b_id r \<notin> b_id ` {b \<in> set bs. \<not> stuck w b}) (backups (live w)) \<and>
     files w' = (\<lambda>p. if p \<in> file_path ` {b \<in> set bs. \<not> stuck w b} then None else files w p) \<and>
     undeletable w' = undeletable w \<and> db_path w' = db_path w \<and> conn w' = conn w \<and>
     memories (live w') = memories (live w) \<and> versions (live w') = versions (live w)"
proof (induction bs arbitrary: n w)
  case Nil
  then show ?case by simp
next
  case (Cons b bs)
  show ?case
  proof (cases "stuck w b")
    case True
    with Cons.prems have "delete_backups bs n w = (n', w')"
      by (simp add: delete_backups_step del: delete_backups.simps)
    from Cons.IH [OF this] True show ?thesis
      by (auto intro!: filter_cong ext)
  next
    case False
    let ?w1 = "w\<lparr>files := (files w)(file_path b := None),
                  live := (live w)\<lparr>backups := filter (\<lambda>r. b_id r \<noteq> b_id b) (backups (live w))\<rparr>\<rparr>"
    from Cons.prems False have r: "delete_backups bs (n + 1) ?w1 = (n', w')"
      by (simp add: delete_backups_step del: delete_backups.simps)
    have st: "\<And>c. stuck ?w1 c = stuck w c"
      by (rule stuck_after_step [OF False])
    note ih = Cons.IH [OF r, unfolded st]
    from ih have c1: "n' = n + length (filter (\<lambda>b. \<not> stuck w b) (b # bs))"
      using False by simp
    from ih have c2: "backups (live w')
       = filter (\<lambda>r. b_id r \<notin> b_id ` {c \<in> set (b # bs). \<not> stuck w c}) (backups (live w))"
      using False by (auto intro!: filter_cong)
    from ih have c3: "files w'
       = (\<lambda>p. if p \<in> file_path ` {c \<in> set (b # bs). \<not> stuck w c} then None else files w p)"
      using False by (auto intro!: ext)
    from ih have c4: "undeletable w' = undeletable w \<and> db_path w' = db_path w \<and> conn w' = conn w \<and>
       memories (live w') = memories (live w) \<and> versions (live w') = versions (live w)"
      by simp
    from c1 c2 c3 c4 show ?thesis by blast
  qed
qed

lemma kept_count:
  assumes ids: "distinct (map b_id (backups d))"
  shows "length (filter (\<lambda>b. in_scope btype b \<and> ahead btype d b < k) (backups d))
           = min k (length (filter (in_scope btype) (backups d)))"
proof -
  let ?key = "\<lambda>b. (b_created_at b, - b_id b)"
  let ?xs = "filter (in_scope btype) (backups d)"
  let ?ys = "rev (sort_key ?key ?xs)"
  let ?zs = "filter (\<lambda>b. ahead btype d b < k) ?xs"
  have keys: "distinct (map ?key ?xs)"
    using ids by (intro distinct_rank_keys) (simp add: distinct_map_filter)
  have dx: "distinct ?xs" using ids by (simp add: distinct_map)
  have "set ?zs = set (take k ?ys)"
  proof (intro set_eqI iffI)
    fix b assume "b \<in> set ?zs"
    then have b: "b \<in> set ?xs" and n: "ahead btype d b < k" by auto
    from recent_iff [OF keys b, of k] n show "b \<in> set (take k ?ys)"
      by (simp only: ahead_scoped)
  next
    fix b assume t: "b \<in> set (take k ?ys)"
    then have b: "b \<in> set ?xs" using set_take_subset [of k ?ys] by auto
    from recent_iff [OF keys b, of k] t have "ahead btype d b < k"
      by (simp only: ahead_scoped)
    with b show "b \<in> set ?zs" by simp
  qed
  then have "card (set ?zs) = card (set (take k ?ys))" by simp
  moreover have "distinct ?zs" by (rule distinct_filter [OF dx])
  moreover have "distinct (take k ?ys)" using dx by simp
  ultimately have "length ?zs = length (take k ?ys)"
    by (simp only: distinct_card)
  then show ?thesis by (simp add: conj_commute)
qed

text \<open>
  What \<open>cleanup_old_backups\<close> does in general. With an open connection it picks for
  deletion exactly the rows of the scope that have at least \<open>keep_count\<close> rows of the
  scope before them in the descending order of the query, whatever their status
  (none when \<open>keep_count\<close> is negative), and goes through them in ascending order. A
  picked row whose file exists and cannot be unlinked stays in the catalog and the
  loop goes on; every other picked row leaves the catalog and its file is gone; the
  call returns the number of those. All other rows and files are as before.
\<close>

lemma cleanup_old_backups_result:
  assumes "conn w" "distinct (map b_id (backups (live w)))"
  shows "case cleanup_old_backups k btype w of
           (r, w') \<Rightarrow>
             r = Inr (length (filter (\<lambda>b. in_scope btype b \<and> 0 \<le> k \<and>
                                          nat k \<le> ahead btype (live w) b \<and>
                                          \<not> stuck w b) (backups (live w)))) \<and>
             backups (live w')
               = filter (\<lambda>b. \<not> (in_scope btype b \<and> 0 \<le> k \<and> nat k \<le> ahead btype (live w) b) \<or>
                              stuck w b)
                   (backups (live w)) \<and>
             files w'
               = (\<lambda>p. if \<exists>b \<in> set (backups (live w)).
                            in_scope btype b \<and> 0 \<le> k \<and> nat k \<le> ahead btype (live w) b \<and>
                            \<not> stuck w b \<and> file_path b = p
                       then None else files w p) \<and>
             sorted (map b_created_at (to_delete k btype (live w))) \<and>
             set (to_delete k btype (live w))
               = {b \<in> set (backups (live w)).
                    in_scope btype b \<and> 0 \<le> k \<and> nat k \<le> ahead btype (live w) b} \<and>
             ((\<forall>b \<in> set (backups (live w)). \<not> stuck w b) \<and> 0 \<le> k \<longrightarrow>
                length (filter (in_scope btype) (backups (live w')))
                  = min (nat k) (length (filter (in_scope btype) (backups (live w)))))"
proof -
  let ?d = "live w"
  let ?T = "\<lambda>b. in_scope btype b \<and> 0 \<le> k \<and> nat k \<le> ahead btype ?d b"
  let ?bs = "to_delete k btype ?d"
  have bs: "?bs = sort_key (\<lambda>b. (b_created_at b, b_id b)) (filter ?T (backups ?d))"
    using to_delete_eq [OF assms(2)] by (simp add: order_by_created_at_asc_def)
  have set_bs: "set ?bs = {b \<in> set (backups ?d). ?T b}"
    unfolding bs by auto
  have "sorted (map (\<lambda>b. (b_created_at b, b_id b)) ?bs)"
    unfolding bs by simp
  then have "sorted_wrt (\<lambda>x y. (b_created_at x, b_id x) \<le> (b_created_at y, b_id y)) ?bs"
    by (simp only: sorted_map)
  then have "sorted_wrt (\<lambda>x y. b_created_at x \<le> b_created_at y) ?bs"
    by (rule sorted_wrt_mono_rel [rotated]) auto
  then have sorted_bs: "sorted (map b_created_at ?bs)"
    by (simp only: sorted_map)
  obtain n w' where run: "delete_backups ?bs 0 w = (n, w')"
    by (cases "delete_backups ?bs 0 w") auto
  note res = delete_backups_result [OF run]
  have cl: "cleanup_old_backups k btype w = (Inr n, w')"
    using assms(1) run by (simp add: cleanup_old_backups_def)
  have inj: "inj_on b_id (set (backups ?d))"
    using assms(2) by (simp add: distinct_map)
  have "filter (\<lambda>b. \<not> stuck w b) ?bs
          = sort_key (\<lambda>b. (b_created_at b, b_id b)) (filter (\<lambda>b. ?T b \<and> \<not> stuck w b) (backups ?d))"
    unfolding bs by (simp add: filter_sort conj_commute)
  then have "length (filter (\<lambda>b. \<not> stuck w b) ?bs)
               = length (filter (\<lambda>b. ?T b \<and> \<not> stuck w b) (backups ?d))"
    by simp
  with res have count: "n = length (filter (\<lambda>b. in_scope btype b \<and> 0 \<le> k \<and>
                                          nat k \<le> ahead btype ?d b \<and>
                                          \<not> stuck w b) (backups ?d))"
    by (simp add: conj_assoc)
  have "filter (\<lambda>r. b_id r \<notin> b_id ` {b \<in> set ?bs. \<not> stuck w b}) (backups ?d)
          = filter (\<lambda>b. \<not> ?T b \<or> stuck w b) (backups ?d)"
  proof (rule filter_cong [OF refl])
    fix r assume r: "r \<in> set (backups ?d)"
    have "b_id r \<in> b_id ` {b \<in> set ?bs. \<not> stuck w b} \<longleftrightarrow> ?T r \<and> \<not> stuck w r"
    proof
      assume "b_id r \<in> b_id ` {b \<in> set ?bs. \<not> stuck w b}"
      then obtain b where b: "b \<in> set ?bs" "\<not> stuck w b" "b_id r = b_id b" by auto
      from b(1) have "b \<in> set (backups ?d)" "?T b" unfolding set_bs by auto
      with inj r b(3) have "r = b" by (auto dest: inj_onD)
      with b(2) \<open>?T b\<close> show "?T r \<and> \<not> stuck w r" by simp
    next
      assume "?T r \<and> \<not> stuck w r"
      with r have "r \<in> {b \<in> set ?bs. \<not> stuck w b}" unfolding set_bs by simp
      then show "b_id r \<in> b_id ` {b \<in> set ?bs. \<not> stuck w b}" by (rule imageI)
    qed
    then show "(b_id r \<notin> b_id ` {b \<in> set ?bs. \<not> stuck w b}) = (\<not> ?T r \<or> stuck w r)"
      by blast
  qed
  with res have rows: "backups (live w') = filter (\<lambda>b. \<not> ?T b \<or> stuck w b) (backups ?d)"
    by simp
  have "\<And>p. (p \<in> file_path ` {b \<in> set ?bs. \<not> stuck w b})
          = (\<exists>b \<in> set (backups ?d). in_scope btype b \<and> 0 \<le> k \<and> nat k \<le> ahead btype ?d b \<and>
                \<not> stuck w b \<and> file_path b = p)"
    unfolding set_bs by auto
  with res have fs: "files w'
               = (\<lambda>p. if \<exists>b \<in> set (backups ?d).
                            in_scope btype b \<and> 0 \<le> k \<and> nat k \<le> ahead btype ?d b \<and>
                            \<not> stuck w b \<and> file_path b = p
                       then None else files w p)"
    by simp
  have exact: "length (filter (in_scope btype) (backups (live w')))
                 = min (nat k) (length (filter (in_scope btype) (backups ?d)))"
    if free: "(\<forall>b \<in> set (backups ?d). \<not> stuck w b) \<and> 0 \<le> k"
  proof -
    have "filter (in_scope btype) (backups (live w'))
            = filter (\<lambda>b. in_scope btype b \<and> ahead btype ?d b < nat k) (backups ?d)"
      unfolding rows using free by (auto intro!: filter_cong simp: not_le)
    then show ?thesis by (simp only: kept_count [OF assms(2)])
  qed
  from cl count rows fs sorted_bs set_bs exact show ?thesis by simp
qed

text \<open>
  The scenario of the specification with the five backups made in five different
  seconds: \<open>keep_count = 3\<close> leaves the three most recent rows and removes the files of
  the other two.
\<close>

lemma five_backups_catalog:
  "backups (live five_backups)
     = [\<lparr>b_id = 1, backup_type = ''manual'', file_path = ''data/backups/backup_1.db'',
         size_bytes = Some 0, checksum = Some [], status = ''completed'',
         description = None, b_created_at = 1\<rparr>,
        \<lparr>b_id = 2, backup_type = ''manual'', file_path = ''data/backups/backup_2.db'',
         size_bytes = Some 1, checksum = Some [], status = ''completed'',
         description = None, b_created_at = 2\<rparr>,
        \<lparr>b_id = 3, backup_type = ''manual'', file_path = ''data/backups/backup_3.db'',
         size_bytes = Some 2, checksum = Some [], status = ''completed'',
         description = None, b_created_at = 3\<rparr>,
        \<lparr>b_id = 4, backup_type = ''manual'', file_path = ''data/backups/backup_4.db'',
         size_bytes = Some 3, checksum = Some [], status = ''completed'',
         description = None, b_created_at = 4\<rparr>,
        \<lparr>b_id = 5, backup_type = ''manual'', file_path = ''data/backups/backup_5.db'',
         size_bytes = Some 4, checksum = Some [], status = ''completed'',
         description = None, b_created_at = 5\<rparr>]"
  "conn five_backups" "undeletable five_backups = {}"
  "files five_backups ''data/backups/backup_1.db'' \<noteq> None"
  "files five_backups ''data/backups/backup_3.db'' \<noteq> None"
  by (simp_all add: five_backups_def backed_up_def MemoryDB_create_backup_def sample_world_def
      sample_platform_def sample_digest_def sample_size_def connect_def copy2_def read_file_def
      write_file_def path_join_def create_tables_def Let_def)

lemma cleanup_spaced_backups:
  "fst (cleanup_old_backups 3 None five_backups) = Inr 2 \<and>
   map b_id (backups (live (snd (cleanup_old_backups 3 None five_backups)))) = [3, 4, 5] \<and>
   files (snd (cleanup_old_backups 3 None five_backups)) ''data/backups/backup_1.db'' = None \<and>
   files (snd (cleanup_old_backups 3 None five_backups)) ''data/backups/backup_2.db'' = None \<and>
   files (snd (cleanup_old_backups 3 None five_backups)) ''data/backups/backup_3.db'' \<noteq> None"
proof -
  obtain r w' where c: "cleanup_old_backups 3 None five_backups = (r, w')"
    by (cases "cleanup_old_backups 3 None five_backups") auto
  have h1: "conn five_backups" by (rule five_backups_catalog(2))
  have h3: "distinct (map b_id (backups (live five_backups)))"
    by (simp add: five_backups_catalog(1))
  have st: "\<And>b. \<not> stuck five_backups b"
    by (simp add: stuck_def five_backups_catalog(3))
  from cleanup_old_backups_result [OF h1 h3, where k = 3 and btype = None] c
  have r: "r = Inr (length (filter (\<lambda>b. in_scope None b \<and> (0::int) \<le> 3 \<and>
                                          nat 3 \<le> ahead None (live five_backups) b \<and>
                                          \<not> stuck five_backups b) (backups (live five_backups))))"
    and rows: "backups (live w')
               = filter (\<lambda>b. \<not> (in_scope None b \<and> (0::int) \<le> 3 \<and>
                                 nat 3 \<le> ahead None (live five_backups) b) \<or>
                              stuck five_backups b)
                   (backups (live five_backups))"
    and fs: "files w'
               = (\<lambda>p. if \<exists>b \<in> set (backups (live five_backups)).
                            in_scope None b \<and> (0::int) \<le> 3 \<and>
                            nat 3 \<le> ahead None (live five_backups) b \<and>
                            \<not> stuck five_backups b \<and> file_path b = p
                       then None else files five_backups p)"
    by simp_all
  have r': "r = Inr 2"
    unfolding r by (simp add: st in_scope_def ahead_def five_backups_catalog(1))
  have rows': "map b_id (backups (live w')) = [3, 4, 5]"
    unfolding rows by (simp add: st in_scope_def ahead_def five_backups_catalog(1))
  have f1: "files w' ''data/backups/backup_1.db'' = None"
    unfolding fs by (simp add: st in_scope_def ahead_def five_backups_catalog(1))
  have f2: "files w' ''data/backups/backup_2.db'' = None"
    unfolding fs by (simp add: st in_scope_def ahead_def five_backups_catalog(1))
  have f3: "files w' ''data/backups/backup_3.db'' \<noteq> None"
    unfolding fs by (simp add: st in_scope_def ahead_def five_backups_catalog)
  from r' rows' f1 f2 f3 show ?thesis by (simp add: c)
qed

text \<open>Five backups made within one second share the time stamp and the file.\<close>

lemma same_second_catalog:
  "backups (live same_second_backups)
     = [\<lparr>b_id = 1, backup_type = ''manual'',
         file_path = ''data/backups/backup_2026-01-01_00-00-00.db'',
         size_bytes = Some 0, checksum = Some [], status = ''completed'',
         description = None, b_created_at = 1\<rparr>,
        \<lparr>b_id = 2, backup_type = ''manual'',
         file_path = ''data/backups/backup_2026-01-01_00-00-00.db'',
         size_bytes = Some 1, checksum = Some [], status = ''completed'',
         description = None, b_created_at = 1\<rparr>,
        \<lparr>b_id = 3, backup_type = ''manual'',
         file_path = ''data/backups/backup_2026-01-01_00-00-00.db'',
         size_bytes = Some 2, checksum = Some [], status = ''completed'',
         description = None, b_created_at = 1\<rparr>,
        \<lparr>b_id = 4, backup_type = ''manual'',
         file_path = ''data/backups/backup_2026-01-01_00-00-00.db'',
         size_bytes = Some 3, checksum = Some [], status = ''completed'',
         description = None, b_created_at = 1\<rparr>,
        \<lparr>b_id = 5, backup_type = ''manual'',
         file_path = ''data/backups/backup_2026-01-01_00-00-00.db'',
         size_bytes = Some 4, checksum = Some [], status = ''completed'',
         description = None, b_created_at = 1\<rparr>]"
  "conn same_second_backups" "undeletable same_second_backups = {}"
  "db_path same_second_backups = ''data/memory.db''"
  "files same_second_backups ''data/backups/backup_2026-01-01_00-00-00.db'' \<noteq> None"
  by (simp_all add: same_second_backups_def backed_up_def MemoryDB_create_backup_def
      sample_world_def sample_platform_def sample_digest_def sample_size_def connect_def
      copy2_def read_file_def write_file_def path_join_def create_tables_def Let_def)

text \<open>
  C9. \<open>cleanup_old_backups\<close> is documented to keep the most recent \<open>keep_count\<close>
  backups. \<open>MemoryDB.create_backup\<close> stamps both the file name and \<open>created_at\<close> to the
  second, and the query orders by \<open>created_at\<close> alone. After five backups made within
  one second, \<open>cleanup_old_backups\<close> with \<open>keep_count = 3\<close> reports two deletions and
  leaves the rows 1, 2 and 3, the three made first, not the three most recent; and
  since all five rows name the same file, deleting row 4 unlinks the file of the
  rows that stay: the three rows left in the catalog have no backup file.
\<close>

theorem cleanup_same_second:
  "map b_id (backups (live same_second_backups)) = [1, 2, 3, 4, 5] \<and>
   fst (cleanup_old_backups 3 None same_second_backups) = Inr 2 \<and>
   map b_id (backups (live (snd (cleanup_old_backups 3 None same_second_backups))))
     = [1, 2, 3] \<and>
   map file_path (backups (live (snd (cleanup_old_backups 3 None same_second_backups))))
     = [''data/backups/backup_2026-01-01_00-00-00.db'',
        ''data/backups/backup_2026-01-01_00-00-00.db'',
        ''data/backups/backup_2026-01-01_00-00-00.db''] \<and>
   path_exists same_second_backups ''data/backups/backup_2026-01-01_00-00-00.db'' \<and>
   \<not> path_exists (snd (cleanup_old_backups 3 None same_second_backups))
        ''data/backups/backup_2026-01-01_00-00-00.db''"
proof -
  let ?p = "''data/backups/backup_2026-01-01_00-00-00.db''"
  let ?row = "\<lambda>i s. \<lparr>b_id = i, backup_type = ''manual'', file_path = ?p,
         size_bytes = Some s, checksum = Some [], status = ''completed'',
         description = None, b_created_at = 1\<rparr>"
  have ids: "map b_id (backups (live same_second_backups)) = [1, 2, 3, 4, 5]"
    by (simp add: same_second_catalog(1))
  have ex: "path_exists same_second_backups ?p"
    using same_second_catalog(5)
    by (simp add: path_exists_def read_file_def same_second_catalog(4))
  have kept: "kept_ids 3 None (live same_second_backups) = [1, 2, 3]"
    by (simp add: kept_ids_def limit_def order_by_created_at_desc_def in_scope_def
        same_second_catalog(1) sort_key_def insort_key_def)
  have td: "to_delete 3 None (live same_second_backups) = [?row 4 3, ?row 5 4]"
    by (simp add: to_delete_def kept order_by_created_at_asc_def in_scope_def
        same_second_catalog(1) sort_key_def insort_key_def)
  obtain n w' where run: "delete_backups [?row 4 3, ?row 5 4] 0 same_second_backups = (n, w')"
    by (cases "delete_backups [?row 4 3, ?row 5 4] 0 same_second_backups") auto
  have cl: "cleanup_old_backups 3 None same_second_backups = (Inr n, w')"
    using run by (simp add: cleanup_old_backups_def same_second_catalog(2) td)
  from run have n: "n = 2"
    and rows: "backups (live w') = [?row 1 0, ?row 2 1, ?row 3 2]"
    and gone: "\<not> path_exists w' ?p"
    using ex
    by (auto simp: path_exists_def read_file_def unlink_def same_second_catalog)
  from ids ex n rows gone show ?thesis by (simp add: cl)
qed

end
